theory Spec2Isabelle
  imports Complex_Main "HOL-Library.Monad_Syntax" "HOL-Library.Multiset"
begin

section \<open>JavaScript numbers\<close>

text \<open>
  Coordinates, areas and margins are JavaScript numbers. They are modelled as the
  reals extended by the two infinities and NaN, with the IEEE rules for the special
  values (\<open>Infinity - Infinity\<close> and \<open>0 * Infinity\<close> are NaN, every comparison
  with NaN is false). Overflow is modelled: a sum or product whose exact value reaches
  \<open>2 ^ 1024 - 2 ^ 970\<close> in magnitude (the least magnitude that the doubles round
  to \<open>Infinity\<close>; \<open>overflow_bound\<close> is this number written out, lemma
  \<open>overflow_bound_eq\<close>) is the infinity of its sign. Rounding of the finite results is not
  modelled: a sum or product below that magnitude is the exact real. A read of an
  absent array element gives \<open>undefined\<close>, which every arithmetic operation and
  comparison of the program turns into NaN, so an absent element reads as \<open>NaN\<close>.
\<close>

datatype num = Fin real | PInf | NInf | NaN

fun jneg :: "num \<Rightarrow> num" where
  "jneg (Fin a) = Fin (- a)"
| "jneg PInf = NInf"
| "jneg NInf = PInf"
| "jneg NaN = NaN"

definition overflow_bound :: real where
  "overflow_bound = 179769313486231580793728971405303415079934132710037826936173778980444968292764750946649017977587207096330286416692887910946555547851940402630657488671505820681908902000708383676273854845817711531764475730270069855571366959622842914819860834936475292719074168444365510704342711559699508093042880177904174497792"

lemma overflow_bound_eq: "overflow_bound = 2 ^ 1024 - 2 ^ 970"
  by (simp add: overflow_bound_def)

definition overflow :: "real \<Rightarrow> num" where
  "overflow x = (if overflow_bound \<le> x then PInf
                 else if x \<le> - overflow_bound then NInf
                 else Fin x)"

fun jadd :: "num \<Rightarrow> num \<Rightarrow> num" where
  "jadd NaN _ = NaN"
| "jadd _ NaN = NaN"
| "jadd (Fin a) (Fin b) = overflow (a + b)"
| "jadd PInf NInf = NaN"
| "jadd NInf PInf = NaN"
| "jadd PInf _ = PInf"
| "jadd _ PInf = PInf"
| "jadd NInf _ = NInf"
| "jadd _ NInf = NInf"

definition jsub :: "num \<Rightarrow> num \<Rightarrow> num" where
  "jsub a b = jadd a (jneg b)"

fun jmul :: "num \<Rightarrow> num \<Rightarrow> num" where
  "jmul NaN _ = NaN"
| "jmul _ NaN = NaN"
| "jmul (Fin a) (Fin b) = overflow (a * b)"
| "jmul (Fin a) PInf = (if a = 0 then NaN else if 0 < a then PInf else NInf)"
| "jmul (Fin a) NInf = (if a = 0 then NaN else if 0 < a then NInf else PInf)"
| "jmul PInf (Fin b) = (if b = 0 then NaN else if 0 < b then PInf else NInf)"
| "jmul NInf (Fin b) = (if b = 0 then NaN else if 0 < b then NInf else PInf)"
| "jmul PInf PInf = PInf"
| "jmul NInf NInf = PInf"
| "jmul PInf NInf = NInf"
| "jmul NInf PInf = NInf"

text \<open>\<open>a < b\<close> on numbers; \<open>a > b\<close> is \<open>jlt b a\<close>.\<close>

fun jlt :: "num \<Rightarrow> num \<Rightarrow> bool" where
  "jlt NaN _ = False"
| "jlt _ NaN = False"
| "jlt (Fin a) (Fin b) = (a < b)"
| "jlt _ NInf = False"
| "jlt PInf _ = False"
| "jlt NInf _ = True"
| "jlt _ PInf = True"

text \<open>\<open>a === b\<close> on numbers.\<close>

fun jeq :: "num \<Rightarrow> num \<Rightarrow> bool" where
  "jeq NaN _ = False"
| "jeq _ NaN = False"
| "jeq a b = (a = b)"

definition jle :: "num \<Rightarrow> num \<Rightarrow> bool" where
  "jle a b = (jlt a b \<or> jeq a b)"

text \<open>\<open>Math.min\<close> and \<open>Math.max\<close>: NaN as soon as one argument is NaN.\<close>

fun jmin :: "num \<Rightarrow> num \<Rightarrow> num" where
  "jmin NaN _ = NaN"
| "jmin _ NaN = NaN"
| "jmin a b = (if jlt b a then b else a)"

fun jmax :: "num \<Rightarrow> num \<Rightarrow> num" where
  "jmax NaN _ = NaN"
| "jmax _ NaN = NaN"
| "jmax a b = (if jlt a b then b else a)"

section \<open>Bounding boxes\<close>

text \<open>
  A bounding box is a flat array: \<open>dm\<close> minima followed by \<open>dm\<close> maxima
  (\<open>dm\<close> is the source's \<open>dim\<close>).
  \<open>bget\<close> is the read \<open>a[i]\<close>, \<open>bset\<close> the write \<open>a[i] = v\<close>, which extends a
  shorter array (the skipped positions are holes, read as \<open>undefined\<close>).
\<close>

type_synonym bbox = "num list"

definition bget :: "bbox \<Rightarrow> nat \<Rightarrow> num" where
  "bget a i = (if i < length a then a ! i else NaN)"

definition bset :: "bbox \<Rightarrow> nat \<Rightarrow> num \<Rightarrow> bbox" where
  "bset a i v = (if i < length a then a[i := v]
                 else a @ replicate (i - length a) NaN @ [v])"

text \<open>
  A variable or field that holds a box can also hold \<open>undefined\<close> or \<open>null\<close>
  (\<open>Undef\<close>); reading an element of it throws a TypeError.
\<close>

datatype jsbox = Undef | Box bbox

subsection \<open>The cached empty box\<close>

text \<open>
  \<open>__empty__\<close> is a module-level array indexed by the dimension. The first call of
  \<open>empty(d)\<close> for a dimension fills the entry and falls off the end of the function
  (there is no \<open>return\<close> in that branch), so it returns \<open>undefined\<close>; later calls
  return a copy of the entry. \<open>empty_rb\<close> is the source's \<open>empty\<close>; it returns the
  result and the new cache.
\<close>

type_synonym cache = "nat \<Rightarrow> bbox option"

fun empty_fill :: "nat \<Rightarrow> nat list \<Rightarrow> bbox \<Rightarrow> bbox" where
  "empty_fill d [] e = e"
| "empty_fill d (i # is) e = empty_fill d is (bset (bset e i PInf) (d + i) NInf)"

definition empty_template :: "nat \<Rightarrow> bbox" where
  "empty_template d = empty_fill d [0..<d] []"

definition empty_rb :: "cache \<Rightarrow> nat \<Rightarrow> jsbox \<times> cache" where
  "empty_rb c d = (case c d of
       None \<Rightarrow> (Undef, c(d \<mapsto> empty_template d))
     | Some e \<Rightarrow> (Box e, c))"

section \<open>Nodes and the tree object\<close>

text \<open>
  A node is \<open>{children, height, bbox, leaf}\<close>. The flag \<open>leaf\<close> says what the
  children are: items in a leaf, nodes otherwise; it is the constructor here
  (\<open>Leaf\<close> for \<open>leaf: true\<close>, \<open>Inner\<close> for \<open>leaf: false\<close>). The field
  \<open>bbox\<close> can hold \<open>undefined\<close> or \<open>null\<close>.
\<close>

datatype 'a node =
    Leaf (items: "'a list") (height: int) (bbox: jsbox)
  | Inner (children: "'a node list") (height: int) (bbox: jsbox)

fun is_leaf :: "'a node \<Rightarrow> bool" where
  "is_leaf (Leaf xs h b) = True"
| "is_leaf (Inner cs h b) = False"

text \<open>\<open>node.children.length\<close>\<close>

fun nchildren :: "'a node \<Rightarrow> nat" where
  "nchildren (Leaf xs h b) = length xs"
| "nchildren (Inner cs h b) = length cs"

fun set_bbox :: "jsbox \<Rightarrow> 'a node \<Rightarrow> 'a node" where
  "set_bbox b (Leaf xs h _) = Leaf xs h b"
| "set_bbox b (Inner cs h _) = Inner cs h b"

text \<open>
  The tree object: \<open>_dimension\<close>, \<open>_maxEntries\<close>, \<open>_minEntries\<close>, the two
  accessors \<open>toBBox\<close> and \<open>compareMin\<close> (methods that \<open>_initFormat\<close> can replace)
  and the root \<open>data\<close>. The module-level cache \<open>__empty__\<close> is carried along as
  the field \<open>empty_cache\<close>: it is the only state outside the object that a method
  reads or writes.
\<close>

record 'a rbush =
  empty_cache :: cache
  dimension :: nat
  maxEntries :: nat
  minEntries :: nat
  toBBox :: "'a \<Rightarrow> bbox"
  compareMin :: "nat \<Rightarrow> 'a \<Rightarrow> 'a \<Rightarrow> num"
  data :: "'a node"

section \<open>Geometry kernel\<close>

fun extend_loop :: "nat \<Rightarrow> nat list \<Rightarrow> bbox \<Rightarrow> bbox \<Rightarrow> bbox" where
  "extend_loop dm [] a b = a"
| "extend_loop dm (i # is) a b =
     (let j = dm + i;
          a1 = bset a i (jmin (bget a i) (bget b i));
          a2 = bset a1 j (jmax (bget a1 j) (bget b j))
      in extend_loop dm is a2 b)"

definition extend_box :: "nat \<Rightarrow> bbox \<Rightarrow> bbox \<Rightarrow> bbox" where
  "extend_box dm a b = extend_loop dm [0..<dm] a b"

text \<open>
  \<open>extend(dim, a, b)\<close> on values that may be \<open>undefined\<close>: the first pass of the loop
  reads \<open>a[0]\<close> and \<open>b[0]\<close>, so an undefined argument throws (\<open>None\<close>) unless the
  loop does not run at all.
\<close>

definition extend :: "nat \<Rightarrow> jsbox \<Rightarrow> jsbox \<Rightarrow> jsbox option" where
  "extend dm a b =
     (if dm = 0 then Some a
      else case (a, b) of
             (Box x, Box y) \<Rightarrow> Some (Box (extend_box dm x y))
           | _ \<Rightarrow> None)"

fun bboxArea_loop :: "nat \<Rightarrow> nat list \<Rightarrow> bbox \<Rightarrow> num \<Rightarrow> num" where
  "bboxArea_loop dm [] a area = area"
| "bboxArea_loop dm (i # is) a area =
     bboxArea_loop dm is a (jmul area (jsub (bget a (dm + i)) (bget a i)))"

definition bboxArea :: "nat \<Rightarrow> bbox \<Rightarrow> num" where
  "bboxArea dm a = bboxArea_loop dm [0..<dm] a (Fin 1)"

fun bboxMargin_loop :: "nat \<Rightarrow> nat list \<Rightarrow> bbox \<Rightarrow> num \<Rightarrow> num" where
  "bboxMargin_loop dm [] a margin = margin"
| "bboxMargin_loop dm (i # is) a margin =
     bboxMargin_loop dm is a (jadd margin (jsub (bget a (dm + i)) (bget a i)))"

definition bboxMargin :: "nat \<Rightarrow> bbox \<Rightarrow> num" where
  "bboxMargin dm a = bboxMargin_loop dm [0..<dm] a (Fin 0)"

fun enlargedArea_loop :: "nat \<Rightarrow> nat list \<Rightarrow> bbox \<Rightarrow> bbox \<Rightarrow> num \<Rightarrow> num" where
  "enlargedArea_loop dm [] a b area = area"
| "enlargedArea_loop dm (i # is) a b area =
     enlargedArea_loop dm is a b
       (jmul area (jsub (jmax (bget b (dm + i)) (bget a (dm + i)))
                        (jmin (bget b i) (bget a i))))"

definition enlargedArea :: "nat \<Rightarrow> bbox \<Rightarrow> bbox \<Rightarrow> num" where
  "enlargedArea dm a b = enlargedArea_loop dm [0..<dm] a b (Fin 1)"

text \<open>
  \<open>intersectionArea\<close>: the factor of axis \<open>i\<close> is
  \<open>Math.max(0, Math.max(b[i], a[i]) - Math.min(b[j], a[j]))\<close>, the larger minimum
  minus the smaller maximum; the loop is left as soon as the product is \<open>0\<close>.
\<close>

fun intersectionArea_loop :: "nat \<Rightarrow> nat list \<Rightarrow> bbox \<Rightarrow> bbox \<Rightarrow> num \<Rightarrow> num" where
  "intersectionArea_loop dm [] a b area = area"
| "intersectionArea_loop dm (i # is) a b area =
     (let j = dm + i;
          area' = jmul area (jmax (Fin 0)
                    (jsub (jmax (bget b i) (bget a i)) (jmin (bget b j) (bget a j))))
      in if jeq area' (Fin 0) then area'
         else intersectionArea_loop dm is a b area')"

definition intersectionArea :: "nat \<Rightarrow> bbox \<Rightarrow> bbox \<Rightarrow> num" where
  "intersectionArea dm a b = intersectionArea_loop dm [0..<dm] a b (Fin 1)"

definition contains_box :: "nat \<Rightarrow> bbox \<Rightarrow> bbox \<Rightarrow> bool" where
  "contains_box dm a b =
     list_all (\<lambda>i. \<not> (jlt (bget b i) (bget a i) \<or> jlt (bget a (dm + i)) (bget b (dm + i))))
       [0..<dm]"

definition intersects_box :: "nat \<Rightarrow> bbox \<Rightarrow> bbox \<Rightarrow> bool" where
  "intersects_box dm a b =
     list_all (\<lambda>i. \<not> (jlt (bget a (dm + i)) (bget b i) \<or> jlt (bget b (dm + i)) (bget a i)))
       [0..<dm]"

text \<open>
  \<open>contains\<close> and \<open>intersects\<close> on values that may be \<open>undefined\<close>: a TypeError
  (\<open>None\<close>) when the loop runs and an argument is undefined.
\<close>

definition contains :: "nat \<Rightarrow> jsbox \<Rightarrow> jsbox \<Rightarrow> bool option" where
  "contains dm a b =
     (if dm = 0 then Some True
      else case (a, b) of
             (Box x, Box y) \<Rightarrow> Some (contains_box dm x y)
           | _ \<Rightarrow> None)"

definition intersects :: "nat \<Rightarrow> jsbox \<Rightarrow> jsbox \<Rightarrow> bool option" where
  "intersects dm a b =
     (if dm = 0 then Some True
      else case (a, b) of
             (Box x, Box y) \<Rightarrow> Some (intersects_box dm x y)
           | _ \<Rightarrow> None)"

section \<open>Operations on the tree object\<close>

text \<open>
  The default accessors: an item is its own box, and \<open>compareMin(axis, a, b)\<close> is
  \<open>a[axis] - b[axis]\<close>.
\<close>

definition default_compareMin :: "('a \<Rightarrow> bbox) \<Rightarrow> nat \<Rightarrow> 'a \<Rightarrow> 'a \<Rightarrow> num" where
  "default_compareMin tb axis a b = jsub (bget (tb a) axis) (bget (tb b) axis)"

text \<open>\<open>compareNodeMin(axis, a, b)\<close> is \<open>a.bbox[axis] - b.bbox[axis]\<close>.\<close>

definition compareNodeMin :: "nat \<Rightarrow> 'a node \<Rightarrow> 'a node \<Rightarrow> num option" where
  "compareNodeMin axis a b =
     (case (bbox a, bbox b) of
        (Box x, Box y) \<Rightarrow> Some (jsub (bget x axis) (bget y axis))
      | _ \<Rightarrow> None)"

definition clear :: "'a rbush \<Rightarrow> 'a rbush" where
  "clear t = (let (b, c) = empty_rb (empty_cache t) (dimension t)
              in t\<lparr>empty_cache := c, data := Leaf [] 1 b\<rparr>)"

text \<open>
  The constructor \<open>rbush(maxEntries, format, dimension)\<close>, called when the cache is
  \<open>c\<close>. An absent \<open>maxEntries\<close> is \<open>0\<close> (\<open>maxEntries || 9\<close>); a dimension below 2
  becomes 2; \<open>Math.ceil(maxEntries * 0.4)\<close> is \<open>(2 * maxEntries + 4) div 5\<close>. The
  accessors are passed in directly instead of the format strings.
\<close>

definition rbush_new ::
  "cache \<Rightarrow> nat \<Rightarrow> nat \<Rightarrow> ('a \<Rightarrow> bbox) \<Rightarrow> (nat \<Rightarrow> 'a \<Rightarrow> 'a \<Rightarrow> num) \<Rightarrow> 'a rbush" where
  "rbush_new c me d tb cm =
     (let d' = (if d < 2 then 2 else d);
          M = max 4 (if me = 0 then 9 else me)
      in clear \<lparr>empty_cache = c, dimension = d', maxEntries = M,
                minEntries = max 2 ((2 * M + 4) div 5),
                toBBox = tb, compareMin = cm, data = Leaf [] 1 Undef\<rparr>)"

subsection \<open>Boxes of children\<close>

text \<open>
  \<open>node.leaf ? toBBox(child) : child.bbox\<close> for every child of a node, in order.
\<close>

fun child_boxes :: "('a \<Rightarrow> bbox) \<Rightarrow> 'a node \<Rightarrow> jsbox list" where
  "child_boxes tb (Leaf xs h b) = map (\<lambda>x. Box (tb x)) xs"
| "child_boxes tb (Inner cs h b) = map bbox cs"

fun distBBox_loop :: "nat \<Rightarrow> jsbox list \<Rightarrow> jsbox \<Rightarrow> jsbox option" where
  "distBBox_loop dm [] bb = Some bb"
| "distBBox_loop dm (c # cs) bb =
     do { bb' \<leftarrow> extend dm bb c; distBBox_loop dm cs bb' }"

text \<open>
  \<open>distBBox(dim, node, k, p, toBBox)\<close>: the box of the children \<open>k\<close> to \<open>p - 1\<close>,
  starting from \<open>empty(dim)\<close>. A child index beyond the array reads \<open>undefined\<close>,
  whose box cannot be read (TypeError). The cache is read and not returned: \<open>empty\<close>
  leaves it as it is when the entry of the dimension exists, and it exists in every
  method of a tree, whose constructor has called \<open>empty\<close> through \<open>clear\<close>
  (lemma \<open>rbush_new_cache\<close>).
\<close>

definition distBBox :: "cache \<Rightarrow> nat \<Rightarrow> 'a node \<Rightarrow> nat \<Rightarrow> nat \<Rightarrow> ('a \<Rightarrow> bbox) \<Rightarrow> jsbox option" where
  "distBBox c dm node k p tb =
     (if k < p \<and> nchildren node < p then None
      else distBBox_loop dm (take (p - k) (drop k (child_boxes tb node))) (fst (empty_rb c dm)))"

definition calcBBox :: "cache \<Rightarrow> nat \<Rightarrow> 'a node \<Rightarrow> ('a \<Rightarrow> bbox) \<Rightarrow> 'a node option" where
  "calcBBox c dm node tb =
     do { b \<leftarrow> distBBox c dm node 0 (nchildren node) tb; Some (set_bbox b node) }"

text \<open>\<open>bboxArea\<close> and \<open>bboxMargin\<close> on a value that may be \<open>undefined\<close>.\<close>

definition bboxAreaJ :: "nat \<Rightarrow> jsbox \<Rightarrow> num option" where
  "bboxAreaJ dm a = (if dm = 0 then Some (Fin 1)
                     else case a of Box x \<Rightarrow> Some (bboxArea dm x) | Undef \<Rightarrow> None)"

definition bboxMarginJ :: "nat \<Rightarrow> jsbox \<Rightarrow> num option" where
  "bboxMarginJ dm a = (if dm = 0 then Some (Fin 0)
                       else case a of Box x \<Rightarrow> Some (bboxMargin dm x) | Undef \<Rightarrow> None)"

definition enlargedAreaJ :: "nat \<Rightarrow> jsbox \<Rightarrow> jsbox \<Rightarrow> num option" where
  "enlargedAreaJ dm a b =
     (if dm = 0 then Some (Fin 1)
      else case (a, b) of (Box x, Box y) \<Rightarrow> Some (enlargedArea dm x y) | _ \<Rightarrow> None)"

definition intersectionAreaJ :: "nat \<Rightarrow> jsbox \<Rightarrow> jsbox \<Rightarrow> num option" where
  "intersectionAreaJ dm a b =
     (if dm = 0 then Some (Fin 1)
      else case (a, b) of (Box x, Box y) \<Rightarrow> Some (intersectionArea dm x y) | _ \<Rightarrow> None)"

subsection \<open>Sorting the children\<close>

text \<open>
  \<open>Array.prototype.sort\<close> with a comparator, modelled as a stable insertion sort: an
  element goes before the first element of the sorted part that the comparator puts
  strictly after it. The comparator can throw (\<open>None\<close>).
\<close>

fun sort_insert :: "('b \<Rightarrow> 'b \<Rightarrow> num option) \<Rightarrow> 'b \<Rightarrow> 'b list \<Rightarrow> 'b list option" where
  "sort_insert cmp x [] = Some [x]"
| "sort_insert cmp x (y # ys) =
     do { c \<leftarrow> cmp x y;
          if jlt c (Fin 0) then Some (x # y # ys)
          else do { r \<leftarrow> sort_insert cmp x ys; Some (y # r) } }"

fun sort_loop :: "('b \<Rightarrow> 'b \<Rightarrow> num option) \<Rightarrow> 'b list \<Rightarrow> 'b list \<Rightarrow> 'b list option" where
  "sort_loop cmp acc [] = Some acc"
| "sort_loop cmp acc (x # xs) = do { acc' \<leftarrow> sort_insert cmp x acc; sort_loop cmp acc' xs }"

definition js_sort :: "('b \<Rightarrow> 'b \<Rightarrow> num option) \<Rightarrow> 'b list \<Rightarrow> 'b list option" where
  "js_sort cmp xs = sort_loop cmp [] xs"

text \<open>
  \<open>node.children.sort(compare.bind(node.children, axis))\<close> with
  \<open>compare = node.leaf ? this.compareMin : compareNodeMin\<close>.
\<close>

fun sort_children :: "(nat \<Rightarrow> 'a \<Rightarrow> 'a \<Rightarrow> num) \<Rightarrow> nat \<Rightarrow> 'a node \<Rightarrow> 'a node option" where
  "sort_children cm axis (Leaf xs h b) =
     do { ys \<leftarrow> js_sort (\<lambda>x y. Some (cm axis x y)) xs; Some (Leaf ys h b) }"
| "sort_children cm axis (Inner cs h b) =
     do { ds \<leftarrow> js_sort (compareNodeMin axis) cs; Some (Inner ds h b) }"

subsection \<open>Splitting an overflowed node\<close>

text \<open>
  The two loops of \<open>_allDistMargin\<close>: each extends a box by the next child and adds
  the margin of the result.
\<close>

fun margin_loop :: "nat \<Rightarrow> jsbox list \<Rightarrow> jsbox \<Rightarrow> num \<Rightarrow> num option" where
  "margin_loop dm [] bb margin = Some margin"
| "margin_loop dm (c # cs) bb margin =
     do { bb' \<leftarrow> extend dm bb c;
          mg \<leftarrow> bboxMarginJ dm bb';
          margin_loop dm cs bb' (jadd margin mg) }"

text \<open>
  \<open>_allDistMargin(node, m, M, compare, axis)\<close> sorts the children of the node in
  place and returns the total margin; the model returns the sorted node too. With
  \<open>M < m\<close> the index \<open>M - m\<close> is negative and the child read there is \<open>undefined\<close>.
\<close>

definition allDistMargin :: "'a rbush \<Rightarrow> 'a node \<Rightarrow> nat \<Rightarrow> nat \<Rightarrow> nat \<Rightarrow> ('a node \<times> num) option" where
  "allDistMargin t node m M axis =
     do { node' \<leftarrow> sort_children (compareMin t) axis node;
          if M < m then None
          else do {
            leftBBox \<leftarrow> distBBox (empty_cache t) (dimension t) node' 0 m (toBBox t);
            rightBBox \<leftarrow> distBBox (empty_cache t) (dimension t) node' (M - m) M (toBBox t);
            ml \<leftarrow> bboxMarginJ (dimension t) leftBBox;
            mr \<leftarrow> bboxMarginJ (dimension t) rightBBox;
            margin1 \<leftarrow> margin_loop (dimension t)
                         (take (M - m - m) (drop m (child_boxes (toBBox t) node')))
                         leftBBox (jadd ml mr);
            margin2 \<leftarrow> margin_loop (dimension t)
                         (rev (take (M - m - m) (drop m (child_boxes (toBBox t) node'))))
                         rightBBox margin1;
            Some (node', margin2) } }"

text \<open>
  \<open>_chooseSplitAxis(node, m, M)\<close>. \<open>bestMargin\<close> starts as \<open>Math.Infinity\<close>, a
  property that \<open>Math\<close> does not have, so it is \<open>undefined\<close> (\<open>None\<close>), and
  \<open>margin <= undefined\<close> is false. After the loop \<open>a\<close> equals the dimension, and the
  final sort by \<open>bestAxis\<close> is guarded by \<open>a < this._dimension\<close>.
\<close>

definition le_undefined :: "num \<Rightarrow> num option \<Rightarrow> bool" where
  "le_undefined x y = (case y of None \<Rightarrow> False | Some b \<Rightarrow> jle x b)"

fun chooseSplitAxis_loop ::
  "'a rbush \<Rightarrow> nat \<Rightarrow> nat \<Rightarrow> nat list \<Rightarrow> 'a node \<Rightarrow> nat \<Rightarrow> num option
     \<Rightarrow> ('a node \<times> nat \<times> num option) option" where
  "chooseSplitAxis_loop t m M [] node bestAxis bestMargin = Some (node, bestAxis, bestMargin)"
| "chooseSplitAxis_loop t m M (a # as) node bestAxis bestMargin =
     do { (node', margin) \<leftarrow> allDistMargin t node m M a;
          if le_undefined margin bestMargin
          then chooseSplitAxis_loop t m M as node' a (Some margin)
          else chooseSplitAxis_loop t m M as node' bestAxis bestMargin }"

definition chooseSplitAxis :: "'a rbush \<Rightarrow> 'a node \<Rightarrow> nat \<Rightarrow> nat \<Rightarrow> 'a node option" where
  "chooseSplitAxis t node m M =
     do { (node', bestAxis, bestMargin) \<leftarrow>
            chooseSplitAxis_loop t m M [0..<dimension t] node 0 None;
          let a = dimension t in
          if a < dimension t then sort_children (compareMin t) bestAxis node'
          else Some node' }"

text \<open>
  \<open>_chooseSplitIndex(node, m, M)\<close>: \<open>index\<close> is \<open>undefined\<close> (\<open>None\<close>) until a
  distribution is chosen.
\<close>

fun chooseSplitIndex_loop ::
  "'a rbush \<Rightarrow> 'a node \<Rightarrow> nat \<Rightarrow> nat list \<Rightarrow> num \<Rightarrow> num \<Rightarrow> nat option \<Rightarrow> nat option option" where
  "chooseSplitIndex_loop t node M [] minOverlap minArea index = Some index"
| "chooseSplitIndex_loop t node M (i # is) minOverlap minArea index =
     do { bbox1 \<leftarrow> distBBox (empty_cache t) (dimension t) node 0 i (toBBox t);
          bbox2 \<leftarrow> distBBox (empty_cache t) (dimension t) node i M (toBBox t);
          overlap \<leftarrow> intersectionAreaJ (dimension t) bbox1 bbox2;
          a1 \<leftarrow> bboxAreaJ (dimension t) bbox1;
          a2 \<leftarrow> bboxAreaJ (dimension t) bbox2;
          let area = jadd a1 a2 in
          if jlt overlap minOverlap
          then chooseSplitIndex_loop t node M is overlap
                 (if jlt area minArea then area else minArea) (Some i)
          else if jeq overlap minOverlap
          then (if jlt area minArea
                then chooseSplitIndex_loop t node M is minOverlap area (Some i)
                else chooseSplitIndex_loop t node M is minOverlap minArea index)
          else chooseSplitIndex_loop t node M is minOverlap minArea index }"

definition chooseSplitIndex :: "'a rbush \<Rightarrow> 'a node \<Rightarrow> nat \<Rightarrow> nat \<Rightarrow> nat option option" where
  "chooseSplitIndex t node m M =
     chooseSplitIndex_loop t node M [m..<Suc (M - m)] PInf PInf None"

text \<open>
  \<open>node.children.splice(splitIndex, node.children.length - splitIndex)\<close>: the removed
  children and the remaining ones. With \<open>splitIndex\<close> undefined the start is 0 and
  the count is NaN, that is 0: nothing is removed.
\<close>

fun splice_children :: "nat option \<Rightarrow> 'a node \<Rightarrow> 'a node \<times> 'a node" where
  "splice_children None (Leaf xs h b) = (Leaf xs h b, Leaf [] h Undef)"
| "splice_children None (Inner cs h b) = (Inner cs h b, Inner [] h Undef)"
| "splice_children (Some k) (Leaf xs h b) = (Leaf (take k xs) h b, Leaf (drop k xs) h Undef)"
| "splice_children (Some k) (Inner cs h b) = (Inner (take k cs) h b, Inner (drop k cs) h Undef)"

text \<open>
  The part of \<open>_split\<close> that works on the node alone: choose the axis and the index,
  move the children from the index on to \<open>newNode\<close>, recompute both boxes. The result
  is the pair \<open>(node, newNode)\<close>.
\<close>

definition split_node :: "'a rbush \<Rightarrow> 'a node \<Rightarrow> ('a node \<times> 'a node) option" where
  "split_node t node =
     (let M = nchildren node; m = minEntries t in
      do { node1 \<leftarrow> chooseSplitAxis t node m M;
           splitIndex \<leftarrow> chooseSplitIndex t node1 m M;
           let (node2, newNode) = splice_children splitIndex node1 in
           do { node3 \<leftarrow> calcBBox (empty_cache t) (dimension t) node2 (toBBox t);
                newNode' \<leftarrow> calcBBox (empty_cache t) (dimension t) newNode (toBBox t);
                Some (node3, newNode') } })"

text \<open>
  The overlap product as the specification words it: the product over the axes of
  \<open>max(0, min(a.max[i], b.max[i]) - max(a.min[i], b.min[i]))\<close>.
\<close>

definition spec_overlap_product :: "nat \<Rightarrow> bbox \<Rightarrow> bbox \<Rightarrow> num" where
  "spec_overlap_product dm a b =
     foldl (\<lambda>p i. jmul p (jmax (Fin 0)
              (jsub (jmin (bget a (dm + i)) (bget b (dm + i)))
                    (jmax (bget a i) (bget b i)))))
       (Fin 1) [0..<dm]"

subsection \<open>Paths\<close>

text \<open>
  \<open>insertPath\<close> is an array of references to the nodes from the root down, and the
  program changes these nodes in place. Here a path is the list of child indices
  taken from the root, together with the last index \<open>plen\<close> of the array
  (\<open>insertPath.length - 1\<close>): \<open>insertPath[l]\<close> is the node reached by the first
  \<open>l\<close> indices, and a change of that node is a change of the tree at that place.
  \<open>_chooseSubtree\<close> can push its last node several times (see there); then
  \<open>plen\<close> is larger than the number of indices and the entries from that number
  on are all the last node, which \<open>take\<close> gives.
\<close>

fun node_at :: "'a node \<Rightarrow> nat list \<Rightarrow> 'a node option" where
  "node_at n [] = Some n"
| "node_at (Leaf xs h b) (i # is) = None"
| "node_at (Inner cs h b) (i # is) = (if i < length cs then node_at (cs ! i) is else None)"

fun update_at :: "'a node \<Rightarrow> nat list \<Rightarrow> ('a node \<Rightarrow> 'a node option) \<Rightarrow> 'a node option" where
  "update_at n [] f = f n"
| "update_at (Leaf xs h b) (i # is) f = None"
| "update_at (Inner cs h b) (i # is) f =
     (if i < length cs
      then do { c \<leftarrow> update_at (cs ! i) is f; Some (Inner (cs[i := c]) h b) }
      else None)"

text \<open>\<open>insertPath[l]\<close>; \<open>undefined\<close> beyond the end of the array.\<close>

definition path_node :: "'a node \<Rightarrow> nat list \<times> nat \<Rightarrow> nat \<Rightarrow> 'a node option" where
  "path_node rt p l =
     (case p of (ipath, plen) \<Rightarrow> if l \<le> plen then node_at rt (take l ipath) else None)"

definition path_update ::
  "'a node \<Rightarrow> nat list \<times> nat \<Rightarrow> nat \<Rightarrow> ('a node \<Rightarrow> 'a node option) \<Rightarrow> 'a node option" where
  "path_update rt p l f =
     (case p of (ipath, plen) \<Rightarrow> if l \<le> plen then update_at rt (take l ipath) f else None)"

subsection \<open>Insertion\<close>

text \<open>
  The \<open>for\<close> loop of \<open>_chooseSubtree\<close> over the boxes of the children; \<open>target\<close>
  is the index of \<open>targetNode\<close> among them, \<open>None\<close> while no child has been chosen.
\<close>

fun chooseSubtree_scan ::
  "nat \<Rightarrow> jsbox \<Rightarrow> jsbox list \<Rightarrow> nat \<Rightarrow> num \<Rightarrow> num \<Rightarrow> nat option \<Rightarrow> nat option option" where
  "chooseSubtree_scan dm bb [] i minEnlargement minArea target = Some target"
| "chooseSubtree_scan dm bb (c # cs) i minEnlargement minArea target =
     do { area \<leftarrow> bboxAreaJ dm c;
          ea \<leftarrow> enlargedAreaJ dm bb c;
          let enlargement = jsub ea area in
          if jlt enlargement minEnlargement
          then chooseSubtree_scan dm bb cs (Suc i) enlargement
                 (if jlt area minArea then area else minArea) (Some i)
          else if jeq enlargement minEnlargement
          then (if jlt area minArea
                then chooseSubtree_scan dm bb cs (Suc i) minEnlargement area (Some i)
                else chooseSubtree_scan dm bb cs (Suc i) minEnlargement minArea target)
          else chooseSubtree_scan dm bb cs (Suc i) minEnlargement minArea target }"

lemma chooseSubtree_scan_bound:
  "chooseSubtree_scan dm bb cs i me ma target = Some (Some k) \<Longrightarrow>
     target = Some k \<or> (i \<le> k \<and> k < i + length cs)"
proof (induction cs arbitrary: i me ma target)
  case Nil
  then show ?case by simp
next
  case (Cons c cs)
  from Cons.prems obtain area ea where
    "bboxAreaJ dm c = Some area" "enlargedAreaJ dm bb c = Some ea"
    by (auto split: Option.bind_splits)
  with Cons.prems have
    "(\<exists>me' ma'. chooseSubtree_scan dm bb cs (Suc i) me' ma' (Some i) = Some (Some k))
     \<or> (\<exists>me' ma'. chooseSubtree_scan dm bb cs (Suc i) me' ma' target = Some (Some k))"
    by (auto simp: Let_def split: if_splits)
  then show ?case
    using Cons.IH by fastforce
qed

text \<open>
  \<open>_chooseSubtree(bbox, node, level, path)\<close>. The result is the index path to the
  node returned and the last index of the array \<open>path\<close>; \<open>path.length - 1\<close> at
  the test of a round is the length of the index path so far. The variable
  \<open>targetNode\<close> is not reset between the rounds. When the \<open>for\<close> loop of a
  round chooses no child (the node has no children, or no enlargement is below or
  equal to \<open>Infinity\<close>), \<open>node = targetNode\<close> takes the value of the round
  before:
  \<^item> in the first round it is \<open>undefined\<close>, and the next round throws a TypeError on
    \<open>node.leaf\<close> (\<open>None\<close>);
  \<^item> in a later round it is the current node itself, which is pushed again, round after
    round, until \<open>path.length - 1\<close> is \<open>level\<close>; the call then returns this
    inner node, above the level asked for. When \<open>path.length - 1\<close> is already
    larger than \<open>level\<close> the loop does not end (\<open>None\<close>).
\<close>

lemma size_nth_less: "k < length cs \<Longrightarrow> size (cs ! k) < Suc (size_list size cs)"
  using size_list_estimation'[of "cs ! k" cs "size (cs ! k)" size] by simp

function chooseSubtree ::
  "nat \<Rightarrow> jsbox \<Rightarrow> 'a node \<Rightarrow> int \<Rightarrow> nat list \<Rightarrow> (nat list \<times> nat) option" where
  "chooseSubtree dm bb (Leaf xs h b) level ipath = Some (ipath, length ipath)"
| "chooseSubtree dm bb (Inner cs h b) level ipath =
     (if int (length ipath) = level then Some (ipath, length ipath)
      else do { target \<leftarrow> chooseSubtree_scan dm bb (map bbox cs) 0 PInf PInf None;
                case target of
                  None \<Rightarrow> (if ipath \<noteq> [] \<and> int (length ipath) < level
                           then Some (ipath, nat level) else None)
                | Some k \<Rightarrow> chooseSubtree dm bb (cs ! k) level (ipath @ [k]) })"
  by pat_completeness auto
termination
proof (relation "measure (\<lambda>(dm, bb, n, level, ipath). size n)", goal_cases)
  case 1
  then show ?case by simp
next
  case (2 dm bb cs h b level ipath target k)
  then have "k < length cs"
    using chooseSubtree_scan_bound[of dm bb "map bbox cs" 0 PInf PInf None k] by simp
  then show ?case
    using size_nth_less[of k cs] by simp
qed

text \<open>
  What is inserted: an item, or (\<open>isNode\<close>) the root of another tree.
\<close>

datatype 'a entry = EItem 'a | ENode "'a node"

fun entry_bbox :: "('a \<Rightarrow> bbox) \<Rightarrow> 'a entry \<Rightarrow> jsbox" where
  "entry_bbox tb (EItem x) = Box (tb x)"
| "entry_bbox tb (ENode n) = bbox n"

text \<open>
  \<open>node.children.push(item)\<close>. The program never throws here. An item pushed into
  an inner node, or a node into a leaf, gives a node with children of both kinds,
  which the node type of this model does not have: the model stops there with
  \<open>None\<close>, although the program goes on. This is the one place where \<open>None\<close> is
  not a TypeError or a loop that does not end; the run \<open>far_run\<close> below leads
  there.
\<close>

fun push_entry :: "'a entry \<Rightarrow> 'a node \<Rightarrow> 'a node option" where
  "push_entry (EItem x) (Leaf xs h b) = Some (Leaf (xs @ [x]) h b)"
| "push_entry (ENode n) (Inner cs h b) = Some (Inner (cs @ [n]) h b)"
| "push_entry (EItem x) (Inner cs h b) = None"
| "push_entry (ENode n) (Leaf xs h b) = None"

text \<open>\<open>extend(dim, node.bbox, bbox)\<close>, the box of the node changed in place.\<close>

definition extend_node :: "nat \<Rightarrow> jsbox \<Rightarrow> 'a node \<Rightarrow> 'a node option" where
  "extend_node dm bb node = do { b' \<leftarrow> extend dm (bbox node) bb; Some (set_bbox b' node) }"

definition splitRoot :: "'a rbush \<Rightarrow> 'a node \<Rightarrow> 'a node \<Rightarrow> 'a node option" where
  "splitRoot t node newNode =
     calcBBox (empty_cache t) (dimension t)
       (Inner [node, newNode] (height node + 1) Undef) (toBBox t)"

text \<open>
  \<open>_split(insertPath, level)\<close> on the tree with the root \<open>rt\<close>; the result is
  the new root (\<open>this.data\<close> itself when the root is split).
\<close>

definition split :: "'a rbush \<Rightarrow> 'a node \<Rightarrow> nat list \<times> nat \<Rightarrow> nat \<Rightarrow> 'a node option" where
  "split t rt ipath level =
     do { node \<leftarrow> path_node rt ipath level;
          (node', newNode) \<leftarrow> split_node t node;
          if level \<noteq> 0
          then do { rt1 \<leftarrow> path_update rt ipath level (\<lambda>_. Some node');
                    path_update rt1 ipath (level - 1) (push_entry (ENode newNode)) }
          else splitRoot t node' newNode }"

text \<open>The \<open>while (level >= 0)\<close> loop of \<open>_insert\<close>: the new root and the final level.\<close>

function split_loop ::
  "'a rbush \<Rightarrow> 'a node \<Rightarrow> nat list \<times> nat \<Rightarrow> int \<Rightarrow> ('a node \<times> int) option" where
  "split_loop t rt ipath level =
     (if 0 \<le> level
      then do { node \<leftarrow> path_node rt ipath (nat level);
                if maxEntries t < nchildren node
                then do { rt' \<leftarrow> split t rt ipath (nat level);
                          split_loop t rt' ipath (level - 1) }
                else Some (rt, level) }
      else Some (rt, level))"
  by pat_completeness auto
termination
  by (relation "measure (\<lambda>(t, rt, ipath, level). nat (level + 1))") auto

function adjustParentBBoxes ::
  "nat \<Rightarrow> jsbox \<Rightarrow> 'a node \<Rightarrow> nat list \<times> nat \<Rightarrow> int \<Rightarrow> 'a node option" where
  "adjustParentBBoxes dm bb rt ipath i =
     (if 0 \<le> i
      then do { rt' \<leftarrow> path_update rt ipath (nat i) (extend_node dm bb);
                adjustParentBBoxes dm bb rt' ipath (i - 1) }
      else Some rt)"
  by pat_completeness auto
termination
  by (relation "measure (\<lambda>(dm, bb, rt, ipath, i). nat (i + 1))") auto

text \<open>\<open>_insert(item, level, isNode)\<close>\<close>

definition insert_priv :: "'a rbush \<Rightarrow> 'a entry \<Rightarrow> int \<Rightarrow> 'a rbush option" where
  "insert_priv t e level =
     (let bb = entry_bbox (toBBox t) e in
      do { (ipath, plen) \<leftarrow> chooseSubtree (dimension t) bb (data t) level [];
           rt1 \<leftarrow> update_at (data t) ipath
                      (\<lambda>node. do { node' \<leftarrow> push_entry e node;
                                   extend_node (dimension t) bb node' });
           (rt2, level') \<leftarrow> split_loop t rt1 (ipath, plen) level;
           rt3 \<leftarrow> adjustParentBBoxes (dimension t) bb rt2 (ipath, plen) level';
           Some (t\<lparr>data := rt3\<rparr>) })"

text \<open>
  \<open>insert(item)\<close>; a falsy item (\<open>null\<close>, \<open>undefined\<close>) is \<open>None\<close>. The result is
  the tree after the call, \<open>None\<close> when the call throws.
\<close>

definition insert_rb :: "'a rbush \<Rightarrow> 'a option \<Rightarrow> 'a rbush option" where
  "insert_rb t item =
     (case item of
        None \<Rightarrow> Some t
      | Some x \<Rightarrow> insert_priv t (EItem x) (height (data t) - 1))"

subsection \<open>Queries\<close>

text \<open>
  \<open>_all(node, result)\<close>. The first argument is the current node followed by
  \<open>nodesToSearch\<close> with its top first: \<open>pop\<close> takes the head, and pushing the
  children leaves the last child on top.
\<close>

fun weight :: "'a node \<Rightarrow> nat" where
  "weight (Leaf xs h b) = 1"
| "weight (Inner cs h b) = 2 + sum_list (map weight cs)"

lemma sum_list_map_rev: "sum_list (map f (rev xs)) = (sum_list (map f xs) :: nat)"
  by (induction xs) auto

function all_loop :: "'a node list \<Rightarrow> 'a list \<Rightarrow> 'a list" where
  "all_loop [] result = result"
| "all_loop (Leaf xs h b # nodesToSearch) result = all_loop nodesToSearch (result @ xs)"
| "all_loop (Inner cs h b # nodesToSearch) result = all_loop (rev cs @ nodesToSearch) result"
  by pat_completeness auto
termination
  by (relation "measure (\<lambda>(st, result). sum_list (map weight st))") (auto simp: sum_list_map_rev)

definition all_rb :: "'a rbush \<Rightarrow> 'a list" where
  "all_rb t = all_loop [data t] []"

text \<open>The \<open>for\<close> loop of \<open>search\<close> over the children of a leaf.\<close>

fun search_leaf :: "nat \<Rightarrow> jsbox \<Rightarrow> ('a \<Rightarrow> bbox) \<Rightarrow> 'a list \<Rightarrow> 'a list \<Rightarrow> 'a list option" where
  "search_leaf dm bb tb [] result = Some result"
| "search_leaf dm bb tb (x # xs) result =
     do { hit \<leftarrow> intersects dm bb (Box (tb x));
          search_leaf dm bb tb xs (if hit then result @ [x] else result) }"

text \<open>The same loop over the children of an inner node.\<close>

fun search_inner ::
  "nat \<Rightarrow> jsbox \<Rightarrow> 'a node list \<Rightarrow> 'a list \<Rightarrow> 'a node list \<Rightarrow> ('a list \<times> 'a node list) option" where
  "search_inner dm bb [] result nodesToSearch = Some (result, nodesToSearch)"
| "search_inner dm bb (c # cs) result nodesToSearch =
     do { hit \<leftarrow> intersects dm bb (bbox c);
          if hit
          then do { inside \<leftarrow> contains dm bb (bbox c);
                    if inside then search_inner dm bb cs (all_loop [c] result) nodesToSearch
                    else search_inner dm bb cs result (c # nodesToSearch) }
          else search_inner dm bb cs result nodesToSearch }"

lemma search_inner_weight:
  "search_inner dm bb cs result st = Some (r, st') \<Longrightarrow>
     sum_list (map weight st') \<le> sum_list (map weight st) + sum_list (map weight cs)"
proof (induction cs arbitrary: result st)
  case Nil
  then show ?case by simp
next
  case (Cons c cs)
  from Cons.prems consider
      (a) r1 where "search_inner dm bb cs r1 st = Some (r, st')"
    | (b) "search_inner dm bb cs result (c # st) = Some (r, st')"
    by (auto split: Option.bind_splits if_splits)
  then show ?case
  proof cases
    case a
    from Cons.IH[OF a] show ?thesis by simp
  next
    case b
    from Cons.IH[OF b] show ?thesis by simp
  qed
qed

function search_loop ::
  "nat \<Rightarrow> jsbox \<Rightarrow> ('a \<Rightarrow> bbox) \<Rightarrow> 'a node list \<Rightarrow> 'a list \<Rightarrow> 'a list option" where
  "search_loop dm bb tb [] result = Some result"
| "search_loop dm bb tb (Leaf xs h b # nodesToSearch) result =
     do { result' \<leftarrow> search_leaf dm bb tb xs result;
          search_loop dm bb tb nodesToSearch result' }"
| "search_loop dm bb tb (Inner cs h b # nodesToSearch) result =
     do { (result', nodesToSearch') \<leftarrow> search_inner dm bb cs result nodesToSearch;
          search_loop dm bb tb nodesToSearch' result' }"
  by pat_completeness auto
termination
proof (relation "measure (\<lambda>(dm, bb, tb, st, result). sum_list (map weight st))", goal_cases)
  case 1
  then show ?case by simp
next
  case 2
  then show ?case by simp
next
  case (3 dm bb tb cs h b st result x xa y)
  then show ?case
    using search_inner_weight[of dm bb cs result st xa y] by simp
qed

text \<open>\<open>search(bbox)\<close>: the items found, \<open>None\<close> when the call throws.\<close>

definition search :: "'a rbush \<Rightarrow> jsbox \<Rightarrow> 'a list option" where
  "search t bb =
     do { hit \<leftarrow> intersects (dimension t) bb (bbox (data t));
          if \<not> hit then Some []
          else search_loop (dimension t) bb (toBBox t) [data t] [] }"

subsection \<open>Removal\<close>

text \<open>
  \<open>children.indexOf(item)\<close>: the first position of the item, \<open>None\<close> for \<open>-1\<close>.
  Items are compared by identity in the program and by equality here: a value of the
  item type stands for one object.
\<close>

fun indexOf :: "'a list \<Rightarrow> 'a \<Rightarrow> nat option" where
  "indexOf [] x = None"
| "indexOf (y # ys) x = (if y = x then Some 0 else map_option Suc (indexOf ys x))"

text \<open>\<open>children.splice(index, 1)\<close>\<close>

definition splice1 :: "nat \<Rightarrow> 'b list \<Rightarrow> 'b list" where
  "splice1 k xs = take k xs @ drop (Suc k) xs"

text \<open>
  \<open>_condense(path)\<close>, from the last node of the path up. The path is given as the
  last node (already changed) and the list of its ancestors, nearest first, each with
  the position of the node below it; \<open>siblings.indexOf(path[i])\<close> is that position,
  since a node object occurs once in the tree.
\<close>

fun remove_child :: "nat option \<Rightarrow> 'a node \<Rightarrow> 'a node option" where
  "remove_child (Some j) (Inner cs h b) = Some (Inner (splice1 j cs) h b)"
| "remove_child _ _ = None"

fun replace_child :: "nat option \<Rightarrow> 'a node \<Rightarrow> 'a node \<Rightarrow> 'a node option" where
  "replace_child (Some j) c (Inner cs h b) = Some (Inner (cs[j := c]) h b)"
| "replace_child _ _ _ = None"

fun condense :: "'a rbush \<Rightarrow> 'a node \<Rightarrow> ('a node \<times> nat option) list \<Rightarrow> 'a rbush option" where
  "condense t n [] =
     (if nchildren n = 0 then Some (clear t)
      else do { n' \<leftarrow> calcBBox (empty_cache t) (dimension t) n (toBBox t);
                Some (t\<lparr>data := n'\<rparr>) })"
| "condense t n ((p, j) # ancs) =
     (if nchildren n = 0
      then do { p' \<leftarrow> remove_child j p; condense t p' ancs }
      else do { n' \<leftarrow> calcBBox (empty_cache t) (dimension t) n (toBBox t);
                p' \<leftarrow> replace_child j n' p;
                condense t p' ancs })"

text \<open>
  The state of the traversal in \<open>remove\<close>: \<open>node\<close> (\<open>None\<close> for \<open>null\<close> and
  \<open>undefined\<close>), \<open>path\<close> and \<open>indexes\<close> with their tops first, \<open>i\<close>
  (\<open>None\<close> while undefined) and \<open>goingUp\<close>. The variable \<open>parent\<close> is not part
  of the state: it is always the top of \<open>path\<close> (\<open>undefined\<close> when the path is
  empty), by each of its three assignments.
\<close>

type_synonym 'a rstate = "'a node option \<times> 'a node list \<times> nat option list \<times> nat option \<times> bool"

fun pop_index :: "nat option list \<Rightarrow> nat option" where
  "pop_index [] = None"
| "pop_index (j # js) = j"

text \<open>\<open>node.children[0]\<close> and \<open>parent.children[i]\<close> for nodes that hold nodes.\<close>

fun child_at :: "'a node \<Rightarrow> nat option \<Rightarrow> 'a node option" where
  "child_at (Inner cs h b) (Some j) = (if j < length cs then Some (cs ! j) else None)"
| "child_at _ _ = None"

fun found_index :: "'a \<Rightarrow> 'a node \<Rightarrow> nat option" where
  "found_index item (Leaf xs h b) = indexOf xs item"
| "found_index item (Inner cs h b) = None"

fun remove_item :: "nat \<Rightarrow> 'a node \<Rightarrow> 'a node" where
  "remove_item k (Leaf xs h b) = Leaf (splice1 k xs) h b"
| "remove_item k (Inner cs h b) = Inner cs h b"

text \<open>\<open>!goingUp && !node.leaf && contains(dim, node.bbox, bbox)\<close>\<close>

fun go_down :: "nat \<Rightarrow> jsbox \<Rightarrow> bool \<Rightarrow> 'a node \<Rightarrow> bool option" where
  "go_down dm bb True n = Some False"
| "go_down dm bb False (Leaf xs h b) = Some False"
| "go_down dm bb False (Inner cs h b) = contains dm b bb"

text \<open>
  The loop test \<open>node || path.length\<close> and one round of the \<open>while\<close> loop:
  either the call returns (\<open>Inl\<close>: the tree, or \<open>None\<close> for a TypeError), or the
  loop goes on with a new state (\<open>Inr\<close>).
\<close>

definition remove_round :: "'a rbush \<Rightarrow> 'a \<Rightarrow> jsbox \<Rightarrow> 'a rstate \<Rightarrow> 'a rbush option + 'a rstate" where
  "remove_round t item bb s =
     (case s of (node, path, indexes, i, goingUp) \<Rightarrow>
      (case (case node of
               Some n \<Rightarrow> Some (n, path, indexes, i, goingUp)
             | None \<Rightarrow> (case path of
                          [] \<Rightarrow> None
                        | n # path' \<Rightarrow> Some (n, path', tl indexes, pop_index indexes, True)))
       of None \<Rightarrow> Inl (Some t)
        | Some (n, path1, indexes1, i1, up1) \<Rightarrow>
           (case found_index item n of
              Some index \<Rightarrow>
                Inl (condense t (remove_item index n) (zip path1 (i1 # indexes1)))
            | None \<Rightarrow>
               (case go_down (dimension t) bb up1 n of
                  None \<Rightarrow> Inl None
                | Some True \<Rightarrow>
                    Inr (child_at n (Some 0), n # path1, i1 # indexes1, Some 0, up1)
                | Some False \<Rightarrow>
                   (case path1 of
                      parent # _ \<Rightarrow>
                        Inr (child_at parent (map_option Suc i1), path1, indexes1,
                             map_option Suc i1, False)
                    | [] \<Rightarrow> Inr (None, path1, indexes1, i1, up1))))))"

text \<open>The measure that decreases with every round.\<close>

fun right_weight :: "'a node \<Rightarrow> nat option \<Rightarrow> nat" where
  "right_weight (Inner cs h b) (Some j) = sum_list (map weight (drop (Suc j) cs))"
| "right_weight _ _ = 0"

fun path_weight :: "'a node list \<Rightarrow> nat option list \<Rightarrow> nat" where
  "path_weight [] indexes = 0"
| "path_weight [n] indexes = 1"
| "path_weight (n # p # path) indexes =
     1 + right_weight p (pop_index indexes) + path_weight (p # path) (tl indexes)"

fun rstate_weight :: "'a rstate \<Rightarrow> nat" where
  "rstate_weight (node, path, indexes, i, goingUp) =
     (case node of None \<Rightarrow> 0 | Some n \<Rightarrow> weight n)
     + (case path of [] \<Rightarrow> 0 | p # _ \<Rightarrow> right_weight p i)
     + path_weight path indexes"

lemma weight_pos: "0 < weight n"
  by (cases n) auto

lemma right_weight_step:
  "(case child_at p (map_option Suc j) of None \<Rightarrow> 0 | Some c \<Rightarrow> weight c)
     + right_weight p (map_option Suc j) \<le> right_weight p j"
proof (cases p)
  case (Leaf xs h b)
  then show ?thesis by simp
next
  case (Inner cs h b)
  show ?thesis
  proof (cases j)
    case None
    with Inner show ?thesis by simp
  next
    case (Some k)
    show ?thesis
    proof (cases "Suc k < length cs")
      case True
      then have "drop (Suc k) cs = cs ! Suc k # drop (Suc (Suc k)) cs"
        by (simp add: Cons_nth_drop_Suc)
      with Inner Some True show ?thesis by simp
    next
      case False
      with Inner Some show ?thesis by simp
    qed
  qed
qed

lemma first_child_weight:
  assumes "\<not> is_leaf n"
  shows "(case child_at n (Some 0) of None \<Rightarrow> 0 | Some c \<Rightarrow> weight c)
           + right_weight n (Some 0) + 2 \<le> weight n"
proof (cases n)
  case (Leaf xs h b)
  with assms show ?thesis by simp
next
  case (Inner cs h b)
  then show ?thesis by (cases cs) auto
qed

lemma go_down_inner: "go_down dm bb up n = Some True \<Longrightarrow> \<not> up \<and> \<not> is_leaf n"
  by (cases "(dm, bb, up, n)" rule: go_down.cases) auto

lemma remove_round_decreases:
  assumes "remove_round t item bb s = Inr s'"
  shows "rstate_weight s' < rstate_weight s"
proof -
  obtain node path indexes i up where s: "s = (node, path, indexes, i, up)"
    by (cases s) auto
  show ?thesis
  proof (cases node)
    case (Some n)
    note node = Some
    from assms s node have nf: "found_index item n = None"
      by (auto simp: remove_round_def split: option.splits)
    show ?thesis
    proof (cases "go_down (dimension t) bb up n")
      case None
      with assms s node nf show ?thesis by (simp add: remove_round_def)
    next
      case (Some g)
      show ?thesis
      proof (cases g)
        case True
        with Some assms s node nf
        have s': "s' = (child_at n (Some 0), n # path, i # indexes, Some 0, up)"
          by (simp add: remove_round_def)
        from True Some have "\<not> is_leaf n"
          using go_down_inner[of "dimension t" bb up n] by simp
        then show ?thesis
          using first_child_weight[of n] s s' node
          by (cases path) (auto split: option.splits)
      next
        case False
        show ?thesis
        proof (cases path)
          case Nil
          with False Some assms s node nf have "s' = (None, [], indexes, i, up)"
            by (simp add: remove_round_def)
          with s node Nil weight_pos[of n] show ?thesis by simp
        next
          case (Cons p path')
          with False Some assms s node nf
          have "s' = (child_at p (map_option Suc i), path, indexes, map_option Suc i, False)"
            by (simp add: remove_round_def)
          with s node Cons weight_pos[of n] right_weight_step[of p i] show ?thesis
            by (auto split: option.splits)
        qed
      qed
    qed
  next
    case None
    note node = None
    show ?thesis
    proof (cases path)
      case Nil
      with assms s node show ?thesis by (simp add: remove_round_def)
    next
      case (Cons n path1)
      from assms s node Cons have nf: "found_index item n = None"
        by (auto simp: remove_round_def split: option.splits)
      have gd: "go_down (dimension t) bb True n = Some False" by simp
      show ?thesis
      proof (cases path1)
        case Nil
        with assms s node Cons nf gd
        have "s' = (None, [], tl indexes, pop_index indexes, True)"
          by (simp add: remove_round_def)
        with s node Cons Nil show ?thesis by simp
      next
        case (Cons p path2)
        with assms s node \<open>path = n # path1\<close> nf gd
        have "s' = (child_at p (map_option Suc (pop_index indexes)), path1, tl indexes,
                    map_option Suc (pop_index indexes), False)"
          by (simp add: remove_round_def)
        with s node \<open>path = n # path1\<close> Cons right_weight_step[of p "pop_index indexes"]
        show ?thesis
          by (auto split: option.splits)
      qed
    qed
  qed
qed

function remove_loop :: "'a rbush \<Rightarrow> 'a \<Rightarrow> jsbox \<Rightarrow> 'a rstate \<Rightarrow> 'a rbush option" where
  "remove_loop t item bb s =
     (case remove_round t item bb s of
        Inl result \<Rightarrow> result
      | Inr s' \<Rightarrow> remove_loop t item bb s')"
  by pat_completeness auto
termination
  by (relation "measure (\<lambda>(t, item, bb, s). rstate_weight s)")
     (auto simp: remove_round_decreases)

text \<open>
  \<open>remove(item)\<close>; a falsy item is \<open>None\<close>. The result is the tree after the call,
  \<open>None\<close> when the call throws.
\<close>

definition remove_rb :: "'a rbush \<Rightarrow> 'a option \<Rightarrow> 'a rbush option" where
  "remove_rb t item =
     (case item of
        None \<Rightarrow> Some t
      | Some x \<Rightarrow> remove_loop t x (Box (toBBox t x)) (Some (data t), [], [], None, False))"

subsection \<open>Selection\<close>

text \<open>
  Array indices are integers. \<open>aget\<close> is the read \<open>arr[i]\<close>, \<open>None\<close> for
  \<open>undefined\<close> (an index outside the array). \<open>swap_rb\<close> is the source's \<open>swap\<close>
  for indices inside the array; outside it the program would store \<open>undefined\<close>
  elements or create new properties, which an array of items does not model
  (\<open>None\<close>). A comparison with \<open>undefined\<close> throws a TypeError, as
  \<open>a[axis] - b[axis]\<close> does.
\<close>

definition aget :: "'a list \<Rightarrow> int \<Rightarrow> 'a option" where
  "aget arr i = (if 0 \<le> i \<and> i < int (length arr) then Some (arr ! nat i) else None)"

definition swap_rb :: "'a list \<Rightarrow> int \<Rightarrow> int \<Rightarrow> 'a list option" where
  "swap_rb arr i j =
     (if 0 \<le> i \<and> i < int (length arr) \<and> 0 \<le> j \<and> j < int (length arr)
      then Some (arr[nat i := arr ! nat j, nat j := arr ! nat i])
      else None)"

text \<open>\<open>while (compare(axis, arr[i], t) < 0) i++\<close>\<close>

function scan_up :: "('a \<Rightarrow> 'a \<Rightarrow> num) \<Rightarrow> 'a list \<Rightarrow> 'a \<Rightarrow> int \<Rightarrow> int option" where
  "scan_up cmp arr t i =
     (case aget arr i of
        None \<Rightarrow> None
      | Some x \<Rightarrow> if jlt (cmp x t) (Fin 0) then scan_up cmp arr t (i + 1) else Some i)"
  by pat_completeness auto
termination
  by (relation "measure (\<lambda>(cmp, arr, t, i). nat (int (length arr) - i))")
     (auto simp: aget_def split: if_splits)

text \<open>\<open>while (compare(axis, arr[j], t) > 0) j--\<close>\<close>

function scan_down :: "('a \<Rightarrow> 'a \<Rightarrow> num) \<Rightarrow> 'a list \<Rightarrow> 'a \<Rightarrow> int \<Rightarrow> int option" where
  "scan_down cmp arr t j =
     (case aget arr j of
        None \<Rightarrow> None
      | Some x \<Rightarrow> if jlt (Fin 0) (cmp x t) then scan_down cmp arr t (j - 1) else Some j)"
  by pat_completeness auto
termination
  by (relation "measure (\<lambda>(cmp, arr, t, j). nat (j + 1))")
     (auto simp: aget_def split: if_splits)

lemma scan_up_ge: "scan_up cmp arr t i = Some i' \<Longrightarrow> i \<le> i'"
proof (induction cmp arr t i rule: scan_up.induct)
  case (1 cmp arr t i)
  from "1.prems" obtain x where x: "aget arr i = Some x"
    by (subst (asm) scan_up.simps) (auto split: option.splits)
  show ?case
  proof (cases "jlt (cmp x t) (Fin 0)")
    case True
    with x "1.prems" have "scan_up cmp arr t (i + 1) = Some i'"
      by (subst (asm) scan_up.simps) simp
    with "1.IH"[OF x True] show ?thesis by simp
  next
    case False
    with x "1.prems" show ?thesis
      by (subst (asm) scan_up.simps) simp
  qed
qed

lemma scan_down_le: "scan_down cmp arr t j = Some j' \<Longrightarrow> j' \<le> j"
proof (induction cmp arr t j rule: scan_down.induct)
  case (1 cmp arr t j)
  from "1.prems" obtain x where x: "aget arr j = Some x"
    by (subst (asm) scan_down.simps) (auto split: option.splits)
  show ?case
  proof (cases "jlt (Fin 0) (cmp x t)")
    case True
    with x "1.prems" have "scan_down cmp arr t (j - 1) = Some j'"
      by (subst (asm) scan_down.simps) simp
    with "1.IH"[OF x True] show ?thesis by simp
  next
    case False
    with x "1.prems" show ?thesis
      by (subst (asm) scan_down.simps) simp
  qed
qed

text \<open>
  The loop \<open>while (i < j)\<close> of \<open>select\<close>: swap, step both indices, run the two
  scans. The result is the array and the final \<open>i\<close> and \<open>j\<close>.
\<close>

function part_loop ::
  "('a \<Rightarrow> 'a \<Rightarrow> num) \<Rightarrow> 'a list \<Rightarrow> 'a \<Rightarrow> int \<Rightarrow> int \<Rightarrow> ('a list \<times> int \<times> int) option" where
  "part_loop cmp arr t i j =
     (if i < j
      then do { arr' \<leftarrow> swap_rb arr i j;
                i' \<leftarrow> scan_up cmp arr' t (i + 1);
                j' \<leftarrow> scan_down cmp arr' t (j - 1);
                part_loop cmp arr' t i' j' }
      else Some (arr, i, j))"
  by pat_completeness auto
termination
proof (relation "measure (\<lambda>(cmp, arr, t, i, j). nat (j - i))", goal_cases)
  case 1
  then show ?case by simp
next
  case (2 cmp arr t i j arr' i' j')
  then show ?case
    using scan_up_ge[of cmp arr' t "i + 1" i'] scan_down_le[of cmp arr' t "j - 1" j'] by simp
qed

text \<open>
  One round of the outer loop of \<open>select\<close> after the narrowing: from \<open>t = arr[k]\<close>
  to the final swap. The result is the array and the final \<open>j\<close>.
\<close>

definition partition_step ::
  "('a \<Rightarrow> 'a \<Rightarrow> num) \<Rightarrow> 'a list \<Rightarrow> int \<Rightarrow> int \<Rightarrow> int \<Rightarrow> ('a list \<times> int) option" where
  "partition_step cmp arr left right k =
     do { t \<leftarrow> aget arr k;
          arr1 \<leftarrow> swap_rb arr left k;
          x \<leftarrow> aget arr1 right;
          arr2 \<leftarrow> (if jlt (Fin 0) (cmp x t) then swap_rb arr1 left right else Some arr1);
          (arr3, i, j) \<leftarrow> part_loop cmp arr2 t left right;
          y \<leftarrow> aget arr3 left;
          if jeq (cmp y t) (Fin 0)
          then do { arr4 \<leftarrow> swap_rb arr3 left j; Some (arr4, j) }
          else do { arr4 \<leftarrow> swap_rb arr3 (j + 1) right; Some (arr4, j + 1) } }"

text \<open>
  The narrowing of \<open>select\<close> for ranges of more than 601 elements: \<open>newLeft\<close> and
  \<open>newRight\<close>, computed with real numbers (rounding is not modelled).
\<close>

definition narrow :: "int \<Rightarrow> int \<Rightarrow> int \<Rightarrow> int \<times> int" where
  "narrow left right k =
     (let n = real_of_int (right - left + 1);
          i = real_of_int (k - left + 1);
          z = ln n;
          s = 0.5 * exp (2 * z / 3);
          sd = 0.5 * sqrt (z * s * (n - s) / n) * (if i - n / 2 < 0 then - 1 else 1)
      in (max left \<lfloor>real_of_int k - i * s / n + sd\<rfloor>,
          min right \<lfloor>real_of_int k + (n - i) * s / n + sd\<rfloor>))"

text \<open>
  The narrowing is not computed when a term is evaluated (no evaluation below reaches
  it: the ranges there have at most 601 elements).
\<close>

declare narrow_def [code del]

text \<open>
  \<open>select(arr, left, right, k, compare, axis)\<close>, with \<open>cmp\<close> for
  \<open>compare(axis, ., .)\<close>. \<open>None\<close>: the call does not return an array (a TypeError,
  a write outside the array, or no termination).
\<close>

partial_function (option) select ::
  "('a \<Rightarrow> 'a \<Rightarrow> num) \<Rightarrow> 'a list \<Rightarrow> int \<Rightarrow> int \<Rightarrow> int \<Rightarrow> 'a list option" where
  "select cmp arr left right k =
     (if left < right
      then do { arr1 \<leftarrow> (if 600 < right - left
                         then select cmp arr (fst (narrow left right k))
                                (snd (narrow left right k)) k
                         else Some arr);
                (arr2, j) \<leftarrow> partition_step cmp arr1 left right k;
                select cmp arr2 (if j \<le> k then j + 1 else left)
                  (if k \<le> j then j - 1 else right) k }
      else Some arr)"

declare select.simps [code]

text \<open>
  \<open>Math.ceil(a / b)\<close> for integers \<open>a\<close> and \<open>b\<close> (\<open>b\<close> not 0).
\<close>

definition ceil_div :: "int \<Rightarrow> int \<Rightarrow> int" where
  "ceil_div a b = - ((- a) div b)"

text \<open>
  \<open>multiSelect(arr, left, right, n, compare, axis)\<close>. The stack holds pairs
  \<open>(left, right)\<close>, the top first. With \<open>n = 0\<close> the midpoint is NaN and \<open>select\<close>
  throws on \<open>arr[NaN]\<close>.
\<close>

partial_function (option) multiSelect_loop ::
  "('a \<Rightarrow> 'a \<Rightarrow> num) \<Rightarrow> 'a list \<Rightarrow> int \<Rightarrow> (int \<times> int) list \<Rightarrow> 'a list option" where
  "multiSelect_loop cmp arr n stack =
     (case stack of
        [] \<Rightarrow> Some arr
      | (left, right) # stack' \<Rightarrow>
          if right - left \<le> n then multiSelect_loop cmp arr n stack'
          else if n = 0 then None
          else let mid = left + ceil_div (right - left) (2 * n) * n in
               do { arr' \<leftarrow> select cmp arr left right mid;
                    multiSelect_loop cmp arr' n ((mid, right) # (left, mid) # stack') })"

declare multiSelect_loop.simps [code]

definition multiSelect ::
  "('a \<Rightarrow> 'a \<Rightarrow> num) \<Rightarrow> 'a list \<Rightarrow> int \<Rightarrow> int \<Rightarrow> int \<Rightarrow> 'a list option" where
  "multiSelect cmp arr left right n = multiSelect_loop cmp arr n [(left, right)]"

subsection \<open>Bulk loading\<close>

text \<open>
  \<open>Math.ceil(Math.log(N) / Math.log(M))\<close> is computed in doubles, and the result
  depends on how the platform rounds the two logarithms and the quotient: for
  \<open>N = 125\<close> and \<open>M = 5\<close> the quotient is slightly above 3 and the result is 4,
  not the exact ceiling 3. The model does not fix this function: it is the parameter
  \<open>mlog\<close> of \<open>_build\<close> and \<open>load\<close>, and \<open>mlog N M\<close> stands for the value of
  the expression. \<open>Math.ceil(Math.sqrt(M))\<close> is the least \<open>r\<close> with
  \<open>M \<le> r * r\<close> (the square root of a double is correctly rounded).
\<close>

function ceil_sqrt_loop :: "int \<Rightarrow> int \<Rightarrow> int" where
  "ceil_sqrt_loop M r = (if M \<le> r * r \<or> r < 0 then r else ceil_sqrt_loop M (r + 1))"
  by pat_completeness auto
termination
proof (relation "measure (\<lambda>(M, r). nat (M - r))", goal_cases)
  case 1
  then show ?case by simp
next
  case (2 M r)
  then have "r \<le> r * r" by (cases "r = 0") (auto simp: mult_le_cancel_left1)
  with 2 show ?case by simp
qed

definition ceil_sqrt :: "int \<Rightarrow> int" where
  "ceil_sqrt M = ceil_sqrt_loop M 0"

text \<open>\<open>items.slice(left, right + 1)\<close> for \<open>left\<close> not negative.\<close>

definition slice :: "'a list \<Rightarrow> int \<Rightarrow> int \<Rightarrow> 'a list" where
  "slice arr left right1 = take (nat (right1 - left)) (drop (nat left) arr)"

text \<open>
  \<open>_build\<close> and the local function \<open>buildAxis\<close> with its \<open>for\<close> loop call one
  another; they are one function here, on the three kinds of call:
  \<open>Build arr left right hgt\<close> is \<open>_build(items, left, right, height)\<close>;
  \<open>Axis arr kids axis left right N1 N2 hgt\<close> is
  \<open>buildAxis(axis, left, right, N1, N2)\<close> inside the \<open>_build\<close> call of that height,
  when the array is \<open>items\<close> and \<open>node.children\<close> is \<open>children\<close>;
  \<open>For arr kids axis i right N1 N2 hgt\<close> is its \<open>for\<close> loop from \<open>i\<close> on.
  Every call returns the array \<open>items\<close> (sorted in place by \<open>multiSelect\<close>) and a
  list of nodes: the node built, for \<open>Build\<close>; \<open>node.children\<close>, for the others.
  (\<open>arr\<close>, \<open>kids\<close> and \<open>hgt\<close> are the source's \<open>items\<close>,
  \<open>node.children\<close> and \<open>height\<close>.)
\<close>

datatype 'a bcall =
    Build "'a list" int int int
  | Axis "'a list" "'a node list" nat int int int int int
  | For "'a list" "'a node list" nat int int int int int

partial_function (option) build_rec ::
  "(int \<Rightarrow> int \<Rightarrow> int) \<Rightarrow> 'a rbush \<Rightarrow> 'a bcall \<Rightarrow> ('a list \<times> 'a node list) option" where
  "build_rec mlog t c =
     (case c of
        Build arr left right hgt \<Rightarrow>
          (let N = right - left + 1; M = int (maxEntries t) in
           if N \<le> M
           then do { node \<leftarrow> calcBBox (empty_cache t) (dimension t)
                               (Leaf (slice arr left (right + 1)) 1 Undef) (toBBox t);
                     Some (arr, [node]) }
           else
             (let hgt' = (if hgt = 0 then mlog N M else hgt);
                  M' = (if hgt = 0 then ceil_div N (M ^ nat (hgt' - 1)) else M);
                  N2 = ceil_div N M';
                  N1 = N2 * ceil_sqrt M'
              in do { (arr', kids) \<leftarrow>
                        build_rec mlog t (Axis arr [] 0 left right N1 N2 hgt');
                      node \<leftarrow> calcBBox (empty_cache t) (dimension t)
                                (Inner kids hgt' Undef) (toBBox t);
                      Some (arr', [node]) }))
      | Axis arr kids axis left right N1 N2 hgt \<Rightarrow>
          do { arr' \<leftarrow> multiSelect (compareMin t axis) arr left right N1;
               build_rec mlog t (For arr' kids axis left right N1 N2 hgt) }
      | For arr kids axis i right N1 N2 hgt \<Rightarrow>
          if i \<le> right
          then (let newRight = min (i + N1 - 1) right in
                do { (arr', kids') \<leftarrow>
                       (if axis + 1 < dimension t
                        then build_rec mlog t (Axis arr kids (axis + 1) i newRight N2 N1 hgt)
                        else do { (arr'', ns) \<leftarrow>
                                    build_rec mlog t (Build arr i newRight (hgt - 1));
                                  Some (arr'', kids @ ns) });
                     build_rec mlog t (For arr' kids' axis (i + N1) right N1 N2 hgt) })
          else Some (arr, kids))"

declare build_rec.simps [code]

text \<open>\<open>_build(items, left, right, height)\<close>: the node built.\<close>

definition build ::
  "(int \<Rightarrow> int \<Rightarrow> int) \<Rightarrow> 'a rbush \<Rightarrow> 'a list \<Rightarrow> int \<Rightarrow> int \<Rightarrow> int \<Rightarrow> 'a node option" where
  "build mlog t arr left right hgt =
     do { (arr', ns) \<leftarrow> build_rec mlog t (Build arr left right hgt);
          case ns of [node] \<Rightarrow> Some node | _ \<Rightarrow> None }"

text \<open>
  The loop of \<open>load\<close> over a batch shorter than \<open>minEntries\<close>: one \<open>insert\<close>
  per item, stopped by the first one that throws.
\<close>

fun insert_all :: "'a rbush \<Rightarrow> 'a list \<Rightarrow> 'a rbush option" where
  "insert_all t [] = Some t"
| "insert_all t (x # xs) = do { t' \<leftarrow> insert_rb t (Some x); insert_all t' xs }"

text \<open>
  \<open>load(data)\<close> for an array of items (an absent or empty \<open>data\<close> is \<open>[]\<close>).
\<close>

definition load :: "(int \<Rightarrow> int \<Rightarrow> int) \<Rightarrow> 'a rbush \<Rightarrow> 'a list \<Rightarrow> 'a rbush option" where
  "load mlog t xs =
     (if xs = [] then Some t
      else if length xs < minEntries t then insert_all t xs
      else do { node \<leftarrow> build mlog t xs 0 (int (length xs) - 1) 0;
                if nchildren (data t) = 0 then Some (t\<lparr>data := node\<rparr>)
                else if height (data t) = height node
                then do { r \<leftarrow> splitRoot t (data t) node; Some (t\<lparr>data := r\<rparr>) }
                else if height (data t) < height node
                then insert_priv (t\<lparr>data := node\<rparr>) (ENode (data t))
                       (height node - height (data t) - 1)
                else insert_priv t (ENode node) (height (data t) - height node - 1) })"

section \<open>Notions used by the claims\<close>

text \<open>The items stored below a node.\<close>

fun node_items :: "'a node \<Rightarrow> 'a set" where
  "node_items (Leaf xs h b) = set xs"
| "node_items (Inner cs h b) = (\<Union>c \<in> set cs. node_items c)"

text \<open>Every inner node has a box (its \<open>bbox\<close> is not \<open>undefined\<close> or \<open>null\<close>).\<close>

fun inner_boxes_defined :: "'a node \<Rightarrow> bool" where
  "inner_boxes_defined (Leaf xs h b) = True"
| "inner_boxes_defined (Inner cs h b) = (b \<noteq> Undef \<and> (\<forall>c \<in> set cs. inner_boxes_defined c))"

text \<open>
  Concrete inputs: the point \<open>(x, y)\<close> as the box \<open>[x, y, x, y]\<close>, with the default
  accessors (an item is its own box); \<open>fresh_tree\<close> is the first tree constructed
  for dimension 2 after the module is loaded (no cache entry yet), \<open>later_tree\<close> a
  tree constructed after it.
\<close>

definition point :: "real \<Rightarrow> real \<Rightarrow> bbox" where
  "point x y = [Fin x, Fin y, Fin x, Fin y]"

definition fresh_tree :: "nat \<Rightarrow> bbox rbush" where
  "fresh_tree me = rbush_new (\<lambda>_. None) me 2 (\<lambda>x. x) (default_compareMin (\<lambda>x. x))"

definition later_tree :: "nat \<Rightarrow> bbox rbush" where
  "later_tree me =
     rbush_new (empty_cache (fresh_tree me)) me 2 (\<lambda>x. x) (default_compareMin (\<lambda>x. x))"

text \<open>
  The tree that \<open>later_tree 4\<close> becomes (its root \<open>data\<close>; no other field is
  written by \<open>insert\<close>) after the points \<open>(0,2)\<close>, \<open>(10,0)\<close>,
  \<open>(20,4)\<close>, \<open>(30,1)\<close>, \<open>(40,3)\<close> are inserted in this order (lemma
  \<open>five_points_tree_reached\<close>).
\<close>

definition five_points_tree :: "bbox rbush" where
  "five_points_tree =
     (later_tree 4)\<lparr>data :=
        Inner [Leaf [point 10 0, point 30 1, point 0 2] 1 (Box [Fin 0, Fin 0, Fin 30, Fin 2]),
               Leaf [point 40 3, point 20 4] 1 (Box [Fin 20, Fin 3, Fin 40, Fin 4])]
          2 (Box [Fin 0, Fin 0, Fin 40, Fin 4])\<rparr>"




text \<open>
  The first tree constructed for dimension 2 after two calls that throw and are
  caught. \<open>insert([0,0,0,0])\<close> pushes the point into the root leaf and then throws
  in \<open>extend\<close>, the root box being \<open>undefined\<close>. \<open>load\<close> of the points
  \<open>(1,1)\<close> and \<open>(2,2)\<close> builds their leaf, assigns
  \<open>{children: [root, leaf], height: 2, bbox: null, leaf: false}\<close> to
  \<open>this.data\<close> in \<open>_splitRoot\<close> and then throws in \<open>calcBBox\<close>, at the box
  of the first child.
\<close>

definition boxless_tree :: "bbox rbush" where
  "boxless_tree =
     (fresh_tree 4)\<lparr>data :=
        Inner [Leaf [point 0 0] 1 Undef,
               Leaf [point 1 1, point 2 2] 1 (Box [Fin 1, Fin 1, Fin 2, Fin 2])] 2 Undef\<rparr>"

text \<open>
  Points far apart: \<open>far\<close> is \<open>2 ^ 520\<close> written out (lemma \<open>far_eq\<close>), a
  double, as its multiples up to 10 are; the square of \<open>far\<close> is beyond the largest
  double. \<open>far_run\<close> is five calls of \<open>load\<close>, each with two points on the
  diagonal, on a tree with \<open>maxEntries\<close> 4 constructed after the first one; a batch
  of two items is built as one leaf, before \<open>Math.log\<close> is used. \<open>far_data\<close>
  is the root after these calls.
\<close>

definition far :: real where
  "far = 3432398830065304857490950399540696608634717650071652704697231729592771591698828026061279820330727277488648155695740429018560993999858321906287014145557528576"

lemma far_eq: "far = 2 ^ 520"
  by (simp add: far_def)

definition far_run :: "(int \<Rightarrow> int \<Rightarrow> int) \<Rightarrow> bbox rbush option" where
  "far_run mlog = do {
     t \<leftarrow> load mlog (later_tree 4) [point 0 0, point far far];
     t \<leftarrow> load mlog t [point (2 * far) (2 * far), point (3 * far) (3 * far)];
     t \<leftarrow> load mlog t [point (4 * far) (4 * far), point (5 * far) (5 * far)];
     t \<leftarrow> load mlog t [point (6 * far) (6 * far), point (7 * far) (7 * far)];
     load mlog t [point (8 * far) (8 * far), point (9 * far) (9 * far)] }"

definition far_data :: "bbox node" where
  "far_data =
     Inner [Inner [Leaf [point 0 0, point far far] 1 (Box [Fin 0, Fin 0, Fin far, Fin far]),
                   Leaf [point (2 * far) (2 * far), point (3 * far) (3 * far)] 1
                     (Box [Fin (2 * far), Fin (2 * far), Fin (3 * far), Fin (3 * far)]),
                   Leaf [point (4 * far) (4 * far), point (5 * far) (5 * far)] 1
                     (Box [Fin (4 * far), Fin (4 * far), Fin (5 * far), Fin (5 * far)]),
                   Leaf [point (6 * far) (6 * far), point (7 * far) (7 * far)] 1
                     (Box [Fin (6 * far), Fin (6 * far), Fin (7 * far), Fin (7 * far)]),
                   Leaf [point (8 * far) (8 * far), point (9 * far) (9 * far)] 1
                     (Box [Fin (8 * far), Fin (8 * far), Fin (9 * far), Fin (9 * far)])]
              2 (Box [Fin 0, Fin 0, Fin (9 * far), Fin (9 * far)]),
            Inner [] 2 (Box [PInf, PInf, NInf, NInf])]
       3 (Box [Fin 0, Fin 0, Fin (9 * far), Fin (9 * far)])"

text \<open>
  Notions for the selection: the comparison is the order of a real key on the elements
  of the array (as \<open>a[axis] - b[axis]\<close> is for finite coordinates); \<open>coord\<close> is
  the coordinate of a box on an axis when it is a finite number.
\<close>

definition key_cmp :: "('a \<Rightarrow> 'a \<Rightarrow> num) \<Rightarrow> ('a \<Rightarrow> real) \<Rightarrow> 'a list \<Rightarrow> bool" where
  "key_cmp cmp key A = (\<forall>a \<in> set A. \<forall>b \<in> set A. cmp a b = Fin (key a - key b))"

definition coord :: "nat \<Rightarrow> bbox \<Rightarrow> real" where
  "coord axis b = (case bget b axis of Fin x \<Rightarrow> x | _ \<Rightarrow> 0)"

text \<open>The comparison against the pivot \<open>t\<close> alone.\<close>

definition pivot_cmp :: "('a \<Rightarrow> 'a \<Rightarrow> num) \<Rightarrow> ('a \<Rightarrow> real) \<Rightarrow> 'a \<Rightarrow> 'a list \<Rightarrow> bool" where
  "pivot_cmp cmp key t A = (\<forall>a \<in> set A. cmp a t = Fin (key a - key t))"

text \<open>
  The invariant of the loop \<open>while (i < j)\<close> at its head: the elements left of \<open>i\<close>
  are at most the pivot, those right of \<open>j\<close> at least the pivot, and the elements at
  \<open>i\<close> and \<open>j\<close> stop the two scans.
\<close>

definition part_inv ::
  "('a \<Rightarrow> real) \<Rightarrow> 'a \<Rightarrow> int \<Rightarrow> int \<Rightarrow> 'a list \<Rightarrow> int \<Rightarrow> int \<Rightarrow> bool" where
  "part_inv key t left right A i j =
     (left \<le> i \<and> i \<le> right \<and> left \<le> j \<and> j \<le> right
      \<and> (i = left \<and> j = right \<or> left < i \<and> j < right)
      \<and> key t \<le> key (A ! nat i) \<and> key (A ! nat j) \<le> key t
      \<and> (\<forall>p. left \<le> p \<and> p < i \<longrightarrow> key (A ! nat p) \<le> key t)
      \<and> (\<forall>p. j < p \<and> p \<le> right \<longrightarrow> key t \<le> key (A ! nat p)))"

text \<open>
  \<open>B\<close> is a permutation of \<open>A\<close> that differs from it only inside \<open>left..right\<close>
  (\<open>same_outside\<close>), or only there and at \<open>k\<close> (\<open>same_except\<close>).
\<close>

definition same_outside :: "int \<Rightarrow> int \<Rightarrow> 'a list \<Rightarrow> 'a list \<Rightarrow> bool" where
  "same_outside left right A B =
     (length B = length A \<and> mset B = mset A
      \<and> (\<forall>p. 0 \<le> p \<and> p < int (length A) \<and> (p < left \<or> right < p) \<longrightarrow> B ! nat p = A ! nat p))"

definition same_except :: "int \<Rightarrow> int \<Rightarrow> int \<Rightarrow> 'a list \<Rightarrow> 'a list \<Rightarrow> bool" where
  "same_except left right k A B =
     (length B = length A \<and> mset B = mset A
      \<and> (\<forall>p. 0 \<le> p \<and> p < int (length A) \<and> (p < left \<or> right < p) \<and> p \<noteq> k
             \<longrightarrow> B ! nat p = A ! nat p))"

text \<open>What one call of \<open>select\<close> achieves.\<close>

definition select_post ::
  "('a \<Rightarrow> real) \<Rightarrow> int \<Rightarrow> int \<Rightarrow> int \<Rightarrow> 'a list \<Rightarrow> 'a list \<Rightarrow> bool" where
  "select_post key left right k A B =
     (same_except left right k A B
      \<and> (left \<le> k \<and> k \<le> right \<longrightarrow>
           (\<forall>p. left \<le> p \<and> p \<le> k \<longrightarrow> key (B ! nat p) \<le> key (B ! nat k))
         \<and> (\<forall>p. k \<le> p \<and> p \<le> right \<longrightarrow> key (B ! nat k) \<le> key (B ! nat p))))"

section \<open>Results\<close>

lemma upt_2: "[0..<2] = [0, Suc 0]"
  by (simp add: upt_rec)

lemma five_points_tree_reached:
  "map_option data
     (insert_all (later_tree 4) [point 0 2, point 10 0, point 20 4, point 30 1, point 40 3])
     = Some (data five_points_tree)"
  by code_simp

subsection \<open>The empty box and the first tree\<close>

text \<open>
  C6 (fails on the code). The claim: every call of \<open>empty(d)\<close>, the first one for a
  dimension included, returns the box of \<open>d\<close> entries \<open>+Infinity\<close> followed by
  \<open>d\<close> entries \<open>-Infinity\<close>. On a cache with no entry for dimension 2 the code
  returns \<open>undefined\<close>; only the second call returns the box.
\<close>

theorem empty_first_call_undefined:
  "fst (empty_rb (\<lambda>_. None) 2) = Undef
   \<and> fst (empty_rb (snd (empty_rb (\<lambda>_. None) 2)) 2) = Box [PInf, PInf, NInf, NInf]"
  by (simp add: empty_rb_def empty_template_def upt_2 bset_def)

text \<open>
  C1 (fails on the code). The claim: in every reachable state, after \<open>insert(x)\<close> the
  call \<open>search(toBBox(x))\<close> returns a sequence that contains \<open>x\<close>. The first tree
  constructed for a dimension has the root box \<open>undefined\<close> (the first call of
  \<open>empty\<close>), so \<open>insert\<close> throws a TypeError in \<open>extend\<close> and \<open>search\<close> throws
  one in \<open>intersects\<close>. On a tree constructed later the same calls return and find
  the item.
\<close>

theorem insert_on_first_tree_throws:
  "insert_rb (fresh_tree 9) (Some (point 0 0)) = None
   \<and> search (fresh_tree 9) (Box (point 0 0)) = None
   \<and> do { t \<leftarrow> insert_rb (later_tree 9) (Some (point 0 0)); search t (Box (point 0 0)) }
       = Some [point 0 0]"
  by code_simp

text \<open>
  C3 (fails on the code). The claim: in every reachable state the box of every node is
  the exact union of the boxes of its children. The root of the first tree constructed
  for a dimension has no box at all, where the union of its (no) children, as
  \<open>calcBBox\<close> computes it, is the empty box.
\<close>

theorem first_tree_root_box_undefined:
  "bbox (data (fresh_tree 9)) = Undef
   \<and> map_option bbox (calcBBox (empty_cache (fresh_tree 9)) 2 (data (fresh_tree 9)) (\<lambda>x. x))
       = Some (Box [PInf, PInf, NInf, NInf])"
  by code_simp

text \<open>
  C2 (fails on the code). The claim: for every batch of \<open>N \<ge> 1\<close> items loaded into an
  empty tree, a search with a box that covers all of them returns exactly these items.
  A batch shorter than \<open>minEntries\<close> is inserted item by item, so on the first tree
  constructed for a dimension \<open>load\<close> of a single item throws as \<open>insert\<close> does;
  on a tree constructed later the same calls return the item.
\<close>

theorem load_on_first_tree_throws:
  "load mlog (fresh_tree 9) [point 0 0] = None
   \<and> do { t \<leftarrow> load mlog (later_tree 9) [point 0 0]; search t (Box (point 0 0)) }
       = Some [point 0 0]"
  by code_simp

subsection \<open>Geometry and split\<close>

text \<open>
  C7 (fails on the code). The claim: \<open>intersectionArea(a, b)\<close> is the product of the
  per-axis overlaps, positive when the boxes overlap with positive extent on every axis.
  For the boxes \<open>[0,0,2,2]\<close> and \<open>[1,1,3,3]\<close>, which overlap in the unit square
  \<open>[1,2] x [1,2]\<close>, the code returns 0 where the product of the overlaps is 1; for the
  disjoint boxes \<open>[0,0,1,1]\<close> and \<open>[3,3,4,4]\<close> the code returns 4 where the product
  is 0.
\<close>

theorem intersectionArea_overlapping_is_zero:
  "intersectionArea 2 [Fin 0, Fin 0, Fin 2, Fin 2] [Fin 1, Fin 1, Fin 3, Fin 3] = Fin 0
   \<and> spec_overlap_product 2 [Fin 0, Fin 0, Fin 2, Fin 2] [Fin 1, Fin 1, Fin 3, Fin 3] = Fin 1
   \<and> intersectionArea 2 [Fin 0, Fin 0, Fin 1, Fin 1] [Fin 3, Fin 3, Fin 4, Fin 4] = Fin 4
   \<and> spec_overlap_product 2 [Fin 0, Fin 0, Fin 1, Fin 1] [Fin 3, Fin 3, Fin 4, Fin 4] = Fin 0"
  by code_simp

text \<open>
  C8 (fails on the code). The claim: a split leaves the children sorted by the axis of
  minimal total margin, and the two siblings are a prefix and a suffix of that order.
  For the leaf with the points \<open>(0,2)\<close>, \<open>(10,0)\<close>, \<open>(20,4)\<close>, \<open>(30,1)\<close>,
  \<open>(40,3)\<close> (\<open>m = 2\<close>, \<open>M = 5\<close>) the total margin is 71 for axis 0 and 116 for
  axis 1, so axis 0 is the axis of minimal margin; \<open>_chooseSplitAxis\<close> leaves the
  children sorted by axis 1 (the axis sorted last), and the siblings are a prefix and a
  suffix of the order by axis 1.
\<close>

theorem split_sorts_by_last_axis:
  "map_option snd (allDistMargin (later_tree 4)
      (Leaf [point 0 2, point 10 0, point 20 4, point 30 1, point 40 3] 1 Undef) 2 5 0)
     = Some (Fin 71)
   \<and> map_option snd (allDistMargin (later_tree 4)
      (Leaf [point 0 2, point 10 0, point 20 4, point 30 1, point 40 3] 1 Undef) 2 5 1)
     = Some (Fin 116)
   \<and> chooseSplitAxis (later_tree 4)
        (Leaf [point 0 2, point 10 0, point 20 4, point 30 1, point 40 3] 1 Undef) 2 5
      = Some (Leaf [point 10 0, point 30 1, point 0 2, point 40 3, point 20 4] 1 Undef)
   \<and> split_node (later_tree 4)
        (Leaf [point 0 2, point 10 0, point 20 4, point 30 1, point 40 3] 1 Undef)
      = Some (Leaf [point 10 0, point 30 1, point 0 2] 1 (Box [Fin 0, Fin 0, Fin 30, Fin 2]),
              Leaf [point 40 3, point 20 4] 1 (Box [Fin 20, Fin 3, Fin 40, Fin 4]))"
  by code_simp

subsection \<open>The fill of the nodes\<close>




















subsection \<open>The levels of the tree\<close>

text \<open>
  C5 (fails on the code). The claim: in every state reachable by the public operations,
  \<open>load\<close> into a tree that is not empty included, all leaves are at the same depth
  and the children of every inner node have the height of the node minus one. The run
  \<open>far_run\<close> loads five batches of two points each; every batch is one leaf, the
  second call puts the two leaves below a new root, the next ones insert the leaf into
  the root. After the fifth call the root has five children and is split. In
  \<open>_chooseSplitIndex\<close> the two groups of every distribution are \<open>far\<close> apart on
  both axes, the overlap and the area are \<open>Infinity\<close> for both values of \<open>i\<close>,
  neither \<open>overlap < minOverlap\<close> nor \<open>area < minArea\<close> holds and the index
  stays \<open>undefined\<close>; \<open>splice(undefined, NaN)\<close> moves no child, so the new root
  has the old root with its five children and an inner node of height 2 with no
  children and the empty box (\<open>far_data\<close>). The next call,
  \<open>insert\<close> of the point \<open>(10 * far, 10 * far)\<close>, asks \<open>_chooseSubtree\<close>
  for level 2: at the root the enlargement of the empty inner node is \<open>-Infinity\<close>
  (that of the old root is NaN), so it is chosen; its \<open>for\<close> loop has no child to
  choose, \<open>targetNode\<close> keeps its value, the node is pushed again and returned as
  \<open>insertPath[2]\<close>. \<open>_insert\<close> pushes the point into the \<open>children\<close> of
  this inner node, extends its box to the point and returns: the point is a child of a
  node of height 2 that is not a leaf, at depth 2, where the other points are in leaves
  at depth 3.
\<close>

theorem item_sent_to_inner_node:
  "map_option data (far_run mlog) = Some far_data
   \<and> chooseSubtree 2 (Box (point (10 * far) (10 * far))) far_data (height far_data - 1) []
       = Some ([1], 2)
   \<and> path_node far_data ([1], 2) 2 = Some (Inner [] 2 (Box [PInf, PInf, NInf, NInf]))"
  by code_simp

subsection \<open>Removal of an absent item\<close>

lemma indexOf_absent: "x \<notin> set xs \<Longrightarrow> indexOf xs x = None"
  by (induction xs) auto

definition absent_ok :: "'a \<Rightarrow> 'a node \<Rightarrow> bool" where
  "absent_ok x n = (inner_boxes_defined n \<and> x \<notin> node_items n)"

lemma absent_ok_found: "absent_ok x n \<Longrightarrow> found_index x n = None"
  by (cases n) (auto simp: absent_ok_def indexOf_absent)

lemma absent_ok_child: "absent_ok x n \<Longrightarrow> child_at n j = Some c \<Longrightarrow> absent_ok x c"
  by (cases "(n, j)" rule: child_at.cases) (auto simp: absent_ok_def split: if_splits)

lemma absent_ok_go_down: "absent_ok x n \<Longrightarrow> go_down dm (Box bx) up n \<noteq> None"
  by (cases "(dm, Box bx, up, n)" rule: go_down.cases)
     (auto simp: absent_ok_def contains_def split: jsbox.splits)

definition absent_state :: "'a \<Rightarrow> 'a rstate \<Rightarrow> bool" where
  "absent_state x s =
     (case s of (node, path, indexes, i, up) \<Rightarrow>
        (\<forall>n. node = Some n \<longrightarrow> absent_ok x n) \<and> (\<forall>p \<in> set path. absent_ok x p))"

lemma remove_round_absent:
  assumes "absent_state x s"
  shows "remove_round t x (Box bx) s = Inl (Some t)
         \<or> (\<exists>s'. remove_round t x (Box bx) s = Inr s' \<and> absent_state x s')"
proof -
  obtain node path indexes i up where s: "s = (node, path, indexes, i, up)"
    by (cases s) auto
  have step: "remove_round t x (Box bx) s = Inl (Some t)
         \<or> (\<exists>s'. remove_round t x (Box bx) s = Inr s' \<and> absent_state x s')"
    if cur: "(case node of Some n \<Rightarrow> Some (n, path, indexes, i, up)
              | None \<Rightarrow> (case path of [] \<Rightarrow> None
                         | n # path' \<Rightarrow> Some (n, path', tl indexes, pop_index indexes, True)))
             = Some (n, path1, indexes1, i1, up1)"
      and okn: "absent_ok x n" and okp: "\<forall>p \<in> set path1. absent_ok x p"
    for n path1 indexes1 i1 up1
  proof -
    from okn have nf: "found_index x n = None" by (rule absent_ok_found)
    from okn obtain g where g: "go_down (dimension t) (Box bx) up1 n = Some g"
      using absent_ok_go_down[of x n "dimension t" bx up1] by auto
    show ?thesis
    proof (cases g)
      case True
      have "absent_state x (child_at n (Some 0), n # path1, i1 # indexes1, Some 0, up1)"
        using okn okp absent_ok_child[of x n "Some 0"] by (auto simp: absent_state_def)
      with True g nf cur s show ?thesis by (simp add: remove_round_def)
    next
      case False
      show ?thesis
      proof (cases path1)
        case Nil
        have "absent_state x (None, [], indexes1, i1, up1)"
          by (simp add: absent_state_def)
        with False Nil g nf cur s show ?thesis by (simp add: remove_round_def)
      next
        case (Cons p rest)
        have "absent_state x (child_at p (map_option Suc i1), path1, indexes1,
                map_option Suc i1, False)"
          using okp Cons absent_ok_child[of x p "map_option Suc i1"]
          by (auto simp: absent_state_def)
        with False Cons g nf cur s show ?thesis by (simp add: remove_round_def)
      qed
    qed
  qed
  show ?thesis
  proof (cases node)
    case (Some n)
    with assms s have "absent_ok x n" "\<forall>p \<in> set path. absent_ok x p"
      by (auto simp: absent_state_def)
    with Some show ?thesis using step[of n path indexes i up] by simp
  next
    case None
    show ?thesis
    proof (cases path)
      case Nil
      with None s show ?thesis by (simp add: remove_round_def)
    next
      case (Cons n path')
      with assms s have "absent_ok x n" "\<forall>p \<in> set path'. absent_ok x p"
        by (auto simp: absent_state_def)
      with None Cons show ?thesis
        using step[of n path' "tl indexes" "pop_index indexes" True] by simp
    qed
  qed
qed

lemma remove_loop_absent:
  "absent_state x s \<Longrightarrow> bb = Box bx \<Longrightarrow> remove_loop t x bb s = Some t"
proof (induction t x bb s rule: remove_loop.induct)
  case (1 t item bb s)
  from remove_round_absent[OF "1.prems"(1), of t bx] "1.prems"(2)
  consider (fin) "remove_round t item bb s = Inl (Some t)"
    | (cont) s' where "remove_round t item bb s = Inr s'" "absent_state item s'"
    by auto
  then show ?case
  proof cases
    case fin
    then show ?thesis by (subst remove_loop.simps) simp
  next
    case cont
    with "1.IH"[of s'] "1.prems"(2) show ?thesis
      by (subst remove_loop.simps) simp
  qed
qed

text \<open>
  C9 (does not hold as stated). The claim: for every tree and every item that is not in
  it, \<open>remove\<close> returns, leaves the tree as it was and raises no error. The tree
  \<open>boxless_tree\<close> has a root that is an inner node with the box \<open>null\<close>: the
  first two conjuncts are the \<open>insert\<close> that leaves its point in the root leaf and
  throws, the next two the \<open>load\<close> that builds the leaf, assigns the new root and
  throws. \<open>remove\<close> of the point \<open>(5,5)\<close>, which is not in the tree, throws a
  TypeError in \<open>contains(dim, null, bbox)\<close>.
\<close>

theorem remove_absent_throws_without_box:
  "push_entry (EItem (point 0 0)) (data (fresh_tree 4)) = Some (Leaf [point 0 0] 1 Undef)
   \<and> extend_node 2 (Box (point 0 0)) (Leaf [point 0 0] 1 Undef) = None
   \<and> (\<forall>mlog. build mlog ((fresh_tree 4)\<lparr>data := Leaf [point 0 0] 1 Undef\<rparr>)
                 [point 1 1, point 2 2] 0 1 0
               = Some (Leaf [point 1 1, point 2 2] 1 (Box [Fin 1, Fin 1, Fin 2, Fin 2])))
   \<and> splitRoot (fresh_tree 4) (Leaf [point 0 0] 1 Undef)
        (Leaf [point 1 1, point 2 2] 1 (Box [Fin 1, Fin 1, Fin 2, Fin 2])) = None
   \<and> point 5 5 \<notin> node_items (data boxless_tree)
   \<and> remove_rb boxless_tree (Some (point 5 5)) = None"
  by (intro conjI allI; code_simp)

text \<open>
  C9, what holds. For every tree in which the leaves hold items and the inner nodes hold
  nodes (as the node type has it) and every inner node has a box, for every item that is
  not stored in it, and for the \<open>null\<close> item, \<open>remove\<close> returns (no TypeError,
  and the traversal ends) and the tree object is the same as before.
\<close>

theorem remove_absent_unchanged:
  assumes "inner_boxes_defined (data t)"
      and "\<forall>x. item = Some x \<longrightarrow> x \<notin> node_items (data t)"
  shows "remove_rb t item = Some t"
proof (cases item)
  case None
  then show ?thesis by (simp add: remove_rb_def)
next
  case (Some x)
  with assms have "absent_state x (Some (data t), [], [], None, False)"
    by (simp add: absent_state_def absent_ok_def)
  then show ?thesis
    using Some remove_loop_absent[of x _ "Box (toBBox t x)" "toBBox t x" t]
    by (simp add: remove_rb_def)
qed

text \<open>
  The point \<open>(15,1)\<close> is inside the box of the root of \<open>five_points_tree\<close> and
  inside the box of its first leaf, so the traversal goes down from the root and
  searches both leaves before it ends.
\<close>

theorem remove_absent_unchanged_witness:
  "inner_boxes_defined (data five_points_tree)
   \<and> point 15 1 \<notin> node_items (data five_points_tree)
   \<and> contains 2 (bbox (data five_points_tree)) (Box (point 15 1)) = Some True
   \<and> remove_rb five_points_tree (Some (point 15 1)) = Some five_points_tree"
proof -
  have h1: "inner_boxes_defined (data five_points_tree)"
    by (simp add: five_points_tree_def)
  have h2: "point 15 1 \<notin> node_items (data five_points_tree)"
    by (simp add: five_points_tree_def point_def)
  then have h3: "\<forall>x. Some (point 15 1) = Some x \<longrightarrow> x \<notin> node_items (data five_points_tree)"
    by simp
  have h4: "contains 2 (bbox (data five_points_tree)) (Box (point 15 1)) = Some True"
    by code_simp
  from remove_absent_unchanged[OF h1 h3] h1 h2 h4 show ?thesis by blast
qed


subsection \<open>Selection\<close>

lemma aget_in: "0 \<le> i \<Longrightarrow> i < int (length A) \<Longrightarrow> aget A i = Some (A ! nat i)"
  by (simp add: aget_def)

lemma swap_rb_in:
  "0 \<le> i \<Longrightarrow> i < int (length A) \<Longrightarrow> 0 \<le> j \<Longrightarrow> j < int (length A) \<Longrightarrow>
     swap_rb A i j = Some (A[nat i := A ! nat j, nat j := A ! nat i])"
  by (simp add: swap_rb_def)

lemma mset_swap2:
  "i < length A \<Longrightarrow> j < length A \<Longrightarrow> mset (A[i := A ! j, j := A ! i]) = mset A"
  by (simp add: mset_swap)

lemma pivot_cmp_nth:
  "pivot_cmp cmp key t A \<Longrightarrow> 0 \<le> i \<Longrightarrow> i < int (length A) \<Longrightarrow>
     cmp (A ! nat i) t = Fin (key (A ! nat i) - key t)"
  by (simp add: pivot_cmp_def)

lemma pivot_cmp_mset: "pivot_cmp cmp key t A \<Longrightarrow> mset B = mset A \<Longrightarrow> pivot_cmp cmp key t B"
  using mset_eq_setD[of B A] by (simp add: pivot_cmp_def)

lemma scan_up_stops:
  assumes "pivot_cmp cmp key t A" "0 \<le> i" "i \<le> s" "s < int (length A)"
      and "key t \<le> key (A ! nat s)"
  shows "\<exists>i'. scan_up cmp A t i = Some i' \<and> i \<le> i' \<and> i' \<le> s
           \<and> key t \<le> key (A ! nat i')
           \<and> (\<forall>p. i \<le> p \<and> p < i' \<longrightarrow> key (A ! nat p) < key t)"
  using assms
proof (induction "nat (s - i)" arbitrary: i)
  case 0
  then have eq: "i = s" by simp
  with 0 have "aget A i = Some (A ! nat s)" by (simp add: aget_in)
  moreover have "\<not> jlt (cmp (A ! nat s) t) (Fin 0)"
    using pivot_cmp_nth[OF "0.prems"(1), of s] "0.prems" by simp
  ultimately have "scan_up cmp A t i = Some i"
    using eq by (subst scan_up.simps) simp
  with eq "0.prems" show ?case by auto
next
  case (Suc d)
  have ai: "aget A i = Some (A ! nat i)" using Suc.prems by (simp add: aget_in)
  have ci: "cmp (A ! nat i) t = Fin (key (A ! nat i) - key t)"
    using pivot_cmp_nth[OF Suc.prems(1), of i] Suc.prems by simp
  show ?case
  proof (cases "key (A ! nat i) < key t")
    case False
    then have "scan_up cmp A t i = Some i"
      using ai ci by (subst scan_up.simps) simp
    with False Suc.prems show ?thesis by auto
  next
    case True
    with Suc.prems have "i \<noteq> s" by auto
    with Suc.prems Suc.hyps have d: "d = nat (s - (i + 1))" "0 \<le> i + 1" "i + 1 \<le> s" by auto
    from Suc.hyps(1)[OF d(1) Suc.prems(1) d(2) d(3) Suc.prems(4) Suc.prems(5)]
    obtain i' where i': "scan_up cmp A t (i + 1) = Some i'" "i + 1 \<le> i'" "i' \<le> s"
      "key t \<le> key (A ! nat i')" "\<forall>p. i + 1 \<le> p \<and> p < i' \<longrightarrow> key (A ! nat p) < key t"
      by blast
    have "scan_up cmp A t i = Some i'"
      using ai ci True i'(1) by (subst scan_up.simps) simp
    moreover have "\<forall>p. i \<le> p \<and> p < i' \<longrightarrow> key (A ! nat p) < key t"
    proof (intro allI impI)
      fix p assume "i \<le> p \<and> p < i'"
      then show "key (A ! nat p) < key t"
        using True i'(5) by (cases "p = i") auto
    qed
    ultimately show ?thesis using i' by auto
  qed
qed

lemma scan_down_stops:
  assumes "pivot_cmp cmp key t A" "0 \<le> s" "s \<le> j" "j < int (length A)"
      and "key (A ! nat s) \<le> key t"
  shows "\<exists>j'. scan_down cmp A t j = Some j' \<and> s \<le> j' \<and> j' \<le> j
           \<and> key (A ! nat j') \<le> key t
           \<and> (\<forall>p. j' < p \<and> p \<le> j \<longrightarrow> key t < key (A ! nat p))"
  using assms
proof (induction "nat (j - s)" arbitrary: j)
  case 0
  then have js: "j = s" by simp
  with 0 have "aget A j = Some (A ! nat s)" by (simp add: aget_in)
  moreover have "\<not> jlt (Fin 0) (cmp (A ! nat s) t)"
    using pivot_cmp_nth[OF "0.prems"(1), of s] "0.prems" by simp
  ultimately have "scan_down cmp A t j = Some j"
    using js by (subst scan_down.simps) simp
  with js "0.prems" show ?case by auto
next
  case (Suc d)
  have aj: "aget A j = Some (A ! nat j)" using Suc.prems by (simp add: aget_in)
  have cj: "cmp (A ! nat j) t = Fin (key (A ! nat j) - key t)"
    using pivot_cmp_nth[OF Suc.prems(1), of j] Suc.prems by simp
  show ?case
  proof (cases "key t < key (A ! nat j)")
    case False
    then have "scan_down cmp A t j = Some j"
      using aj cj by (subst scan_down.simps) simp
    with False Suc.prems show ?thesis by auto
  next
    case True
    with Suc.prems have "j \<noteq> s" by auto
    with Suc.prems Suc.hyps have d: "d = nat (j - 1 - s)" "s \<le> j - 1" "j - 1 < int (length A)"
      by auto
    from Suc.hyps(1)[OF d(1) Suc.prems(1) Suc.prems(2) d(2) d(3) Suc.prems(5)]
    obtain j' where j': "scan_down cmp A t (j - 1) = Some j'" "s \<le> j'" "j' \<le> j - 1"
      "key (A ! nat j') \<le> key t" "\<forall>p. j' < p \<and> p \<le> j - 1 \<longrightarrow> key t < key (A ! nat p)"
      by blast
    have "scan_down cmp A t j = Some j'"
      using aj cj True j'(1) by (subst scan_down.simps) simp
    moreover have "\<forall>p. j' < p \<and> p \<le> j \<longrightarrow> key t < key (A ! nat p)"
    proof (intro allI impI)
      fix p assume "j' < p \<and> p \<le> j"
      then show "key t < key (A ! nat p)"
        using True j'(5) by (cases "p = j") auto
    qed
    ultimately show ?thesis using j' by auto
  qed
qed

lemma swap_nth:
  "0 \<le> i \<Longrightarrow> i < int (length A) \<Longrightarrow> 0 \<le> j \<Longrightarrow> j < int (length A) \<Longrightarrow>
   0 \<le> p \<Longrightarrow> p < int (length A) \<Longrightarrow>
     (A[nat i := A ! nat j, nat j := A ! nat i]) ! nat p
       = (if p = j then A ! nat i else if p = i then A ! nat j else A ! nat p)"
  by (auto simp: nth_list_update)

lemma same_outside_refl: "same_outside left right A A"
  by (simp add: same_outside_def)

lemma same_outside_trans:
  "same_outside left right A B \<Longrightarrow> same_outside left right B C \<Longrightarrow> same_outside left right A C"
  by (simp add: same_outside_def)

lemma same_outside_mono:
  "same_outside l r A B \<Longrightarrow> left \<le> l \<Longrightarrow> r \<le> right \<Longrightarrow> same_outside left right A B"
  by (auto simp: same_outside_def)

lemma same_outside_swap:
  assumes "0 \<le> left" "right < int (length A)" "left \<le> i" "i \<le> right" "left \<le> j" "j \<le> right"
  shows "same_outside left right A (A[nat i := A ! nat j, nat j := A ! nat i])"
  using assms by (auto simp: same_outside_def mset_swap nth_list_update)

lemma part_loop_correct:
  assumes "pivot_cmp cmp key t A" "0 \<le> left" "right < int (length A)"
      and "part_inv key t left right A i j"
  shows "\<exists>A' i' j'. part_loop cmp A t i j = Some (A', i', j')
           \<and> j' \<le> i' \<and> part_inv key t left right A' i' j'
           \<and> same_outside left right A A'
           \<and> (i < j \<longrightarrow> left < i' \<and> j' < right)
           \<and> (left < i \<longrightarrow> A' ! nat left = A ! nat left \<and> A' ! nat right = A ! nat right)
           \<and> (i = left \<and> j = right \<and> i < j \<longrightarrow>
                 A' ! nat left = A ! nat right \<and> A' ! nat right = A ! nat left)"
  using assms
proof (induction "nat (j - i)" arbitrary: A i j rule: less_induct)
  case less
  note pc = less.prems(1) and lb = less.prems(2) and rb = less.prems(3) and inv = less.prems(4)
  show ?case
  proof (cases "i < j")
    case False
    then have "part_loop cmp A t i j = Some (A, i, j)"
      by (subst part_loop.simps) simp
    with False inv show ?thesis
      by (auto simp: same_outside_refl)
  next
    case True
    from inv have iv: "left \<le> i" "i \<le> right" "left \<le> j" "j \<le> right"
      "i = left \<and> j = right \<or> left < i \<and> j < right"
      "key t \<le> key (A ! nat i)" "key (A ! nat j) \<le> key t"
      "\<forall>p. left \<le> p \<and> p < i \<longrightarrow> key (A ! nat p) \<le> key t"
      "\<forall>p. j < p \<and> p \<le> right \<longrightarrow> key t \<le> key (A ! nat p)"
      by (auto simp: part_inv_def)
    define A1 where "A1 = A[nat i := A ! nat j, nat j := A ! nat i]"
    have ib: "0 \<le> i" "i < int (length A)" "0 \<le> j" "j < int (length A)"
      using iv lb rb by auto
    have sw: "swap_rb A i j = Some A1"
      using ib by (simp add: swap_rb_in A1_def)
    have len1: "length A1 = length A" by (simp add: A1_def)
    have so1: "same_outside left right A A1"
      unfolding A1_def using same_outside_swap[OF lb rb iv(1,2,3,4)] .
    have nth1: "\<And>p. 0 \<le> p \<Longrightarrow> p < int (length A) \<Longrightarrow>
        A1 ! nat p = (if p = j then A ! nat i else if p = i then A ! nat j else A ! nat p)"
      unfolding A1_def using swap_nth[OF ib] by blast
    have pc1: "pivot_cmp cmp key t A1"
      using pc so1 pivot_cmp_mset[of cmp key t A A1] by (simp add: same_outside_def)
    have a1i: "key (A1 ! nat i) \<le> key t" using nth1[of i] ib iv(7) True by simp
    have a1j: "key t \<le> key (A1 ! nat j)" using nth1[of j] ib iv(6) by simp
    from scan_up_stops[OF pc1, of "i + 1" j] ib True a1j len1
    obtain i' where i': "scan_up cmp A1 t (i + 1) = Some i'" "i + 1 \<le> i'" "i' \<le> j"
      "key t \<le> key (A1 ! nat i')" "\<forall>p. i + 1 \<le> p \<and> p < i' \<longrightarrow> key (A1 ! nat p) < key t"
      by auto
    from scan_down_stops[OF pc1, of i "j - 1"] ib True a1i len1
    obtain j' where j': "scan_down cmp A1 t (j - 1) = Some j'" "i \<le> j'" "j' \<le> j - 1"
      "key (A1 ! nat j') \<le> key t" "\<forall>p. j' < p \<and> p \<le> j - 1 \<longrightarrow> key t < key (A1 ! nat p)"
      by auto
    have low: "\<forall>p. left \<le> p \<and> p < i' \<longrightarrow> key (A1 ! nat p) \<le> key t"
    proof (intro allI impI)
      fix p assume p: "left \<le> p \<and> p < i'"
      consider "p < i" | "p = i" | "i + 1 \<le> p" by linarith
      then show "key (A1 ! nat p) \<le> key t"
      proof cases
        case 1
        then have "A1 ! nat p = A ! nat p" using nth1[of p] p lb ib True by simp
        with 1 p iv(8) show ?thesis by simp
      next
        case 2
        with a1i show ?thesis by simp
      next
        case 3
        with p i'(5) show ?thesis by (simp add: less_imp_le)
      qed
    qed
    have high: "\<forall>p. j' < p \<and> p \<le> right \<longrightarrow> key t \<le> key (A1 ! nat p)"
    proof (intro allI impI)
      fix p assume p: "j' < p \<and> p \<le> right"
      consider "j < p" | "p = j" | "p \<le> j - 1" by linarith
      then show "key t \<le> key (A1 ! nat p)"
      proof cases
        case 1
        then have "A1 ! nat p = A ! nat p" using nth1[of p] p rb ib True by simp
        with 1 p iv(9) show ?thesis by simp
      next
        case 2
        with a1j show ?thesis by simp
      next
        case 3
        with p j'(5) show ?thesis by (simp add: less_imp_le)
      qed
    qed
    have inv1: "part_inv key t left right A1 i' j'"
      unfolding part_inv_def using iv i' j' low high by auto
    have meas: "nat (j' - i') < nat (j - i)" using i' j' True by simp
    from less.hyps[OF meas pc1 lb _ inv1] rb len1
    obtain A' i'' j'' where r: "part_loop cmp A1 t i' j' = Some (A', i'', j'')"
      "j'' \<le> i''" "part_inv key t left right A' i'' j''" "same_outside left right A1 A'"
      "left < i' \<longrightarrow> A' ! nat left = A1 ! nat left \<and> A' ! nat right = A1 ! nat right"
      by auto
    have pl: "part_loop cmp A t i j = Some (A', i'', j'')"
      using True sw i'(1) j'(1) r(1) by (subst part_loop.simps) simp
    from r(3) have bnd: "left \<le> i''" "j'' \<le> right" by (auto simp: part_inv_def)
    have li': "left < i'" using i' iv by simp
    have stay: "left < i'' \<and> j'' < right"
    proof -
      from r(3) have "i'' = left \<and> j'' = right \<or> left < i'' \<and> j'' < right"
        by (auto simp: part_inv_def)
      moreover have "\<not> (i'' = left \<and> j'' = right)"
        using r(2) iv True ib by auto
      ultimately show ?thesis by simp
    qed
    have ends1: "left < i \<longrightarrow> A' ! nat left = A ! nat left \<and> A' ! nat right = A ! nat right"
    proof
      assume l: "left < i"
      with iv(5) have jr: "j < right" by auto
      have "A1 ! nat left = A ! nat left" using nth1[of left] lb l ib True by simp
      moreover have "A1 ! nat right = A ! nat right" using nth1[of right] rb jr ib True lb iv by simp
      ultimately show "A' ! nat left = A ! nat left \<and> A' ! nat right = A ! nat right"
        using r(5) li' by simp
    qed
    have ends2: "i = left \<and> j = right \<and> i < j \<longrightarrow>
                 A' ! nat left = A ! nat right \<and> A' ! nat right = A ! nat left"
    proof
      assume e: "i = left \<and> j = right \<and> i < j"
      have "A1 ! nat left = A ! nat right" using nth1[of left] e ib by simp
      moreover have "A1 ! nat right = A ! nat left" using nth1[of right] e ib by simp
      ultimately show "A' ! nat left = A ! nat right \<and> A' ! nat right = A ! nat left"
        using r(5) li' by simp
    qed
    show ?thesis
      using pl r(2,3) same_outside_trans[OF so1 r(4)] stay ends1 ends2 by blast
  qed
qed

lemma key_cmp_mset: "key_cmp cmp key A \<Longrightarrow> mset B = mset A \<Longrightarrow> key_cmp cmp key B"
  using mset_eq_setD[of B A] by (simp add: key_cmp_def)

lemma key_cmp_pivot: "key_cmp cmp key A \<Longrightarrow> t \<in> set A \<Longrightarrow> pivot_cmp cmp key t A"
  by (simp add: key_cmp_def pivot_cmp_def)

lemma same_except_refl: "same_except left right k A A"
  by (simp add: same_except_def)

lemma same_except_trans:
  "same_except left right k A B \<Longrightarrow> same_except left right k B C \<Longrightarrow> same_except left right k A C"
  by (simp add: same_except_def)

lemma same_except_mono:
  "same_except l r k A B \<Longrightarrow> left \<le> l \<Longrightarrow> r \<le> right \<Longrightarrow> same_except left right k A B"
  by (auto simp: same_except_def)

lemma same_outside_except: "same_outside left right A B \<Longrightarrow> same_except left right k A B"
  by (simp add: same_outside_def same_except_def)

lemma same_except_swap_k:
  assumes "0 \<le> left" "left \<le> right" "right < int (length A)" "0 \<le> k" "k < int (length A)"
  shows "same_except left right k A (A[nat left := A ! nat k, nat k := A ! nat left])"
  using assms by (auto simp: same_except_def mset_swap nth_list_update)

lemma partition_step_correct:
  assumes kc: "key_cmp cmp key A"
      and bnd: "0 \<le> left" "left < right" "right < int (length A)" "0 \<le> k" "k < int (length A)"
  shows "\<exists>A' j. partition_step cmp A left right k = Some (A', j)
           \<and> left \<le> j \<and> j \<le> right \<and> same_except left right k A A'
           \<and> (\<forall>p. left \<le> p \<and> p < j \<longrightarrow> key (A' ! nat p) \<le> key (A' ! nat j))
           \<and> (\<forall>p. j < p \<and> p \<le> right \<longrightarrow> key (A' ! nat j) \<le> key (A' ! nat p))"
proof -
  define t where "t = A ! nat k"
  define A1 where "A1 = A[nat left := A ! nat k, nat k := A ! nat left]"
  have tin: "t \<in> set A" using bnd by (simp add: t_def)
  have lb: "0 \<le> left" "left < int (length A)" "0 \<le> right" using bnd by auto
  have g0: "aget A k = Some t" using bnd by (simp add: aget_in t_def)
  have s1: "swap_rb A left k = Some A1" using bnd lb by (simp add: swap_rb_in A1_def)
  have len1: "length A1 = length A" by (simp add: A1_def)
  have se1: "same_except left right k A A1"
    unfolding A1_def using same_except_swap_k[of left right A k] bnd by simp
  have a1l: "A1 ! nat left = t" using bnd lb by (auto simp: A1_def t_def nth_list_update)
  define x where "x = A1 ! nat right"
  have g1: "aget A1 right = Some x" using bnd lb len1 by (simp add: aget_in x_def)
  have xin: "x \<in> set A"
  proof -
    have "x \<in> set A1" using bnd lb len1 by (simp add: x_def)
    moreover have "set A1 = set A" using se1 mset_eq_setD[of A1 A] by (simp add: same_except_def)
    ultimately show ?thesis by simp
  qed
  have cx: "cmp x t = Fin (key x - key t)" using kc xin tin by (simp add: key_cmp_def)
  define A2 where "A2 = (if key t < key x then A1[nat left := A1 ! nat right, nat right := A1 ! nat left] else A1)"
  have s2: "(if jlt (Fin 0) (cmp x t) then swap_rb A1 left right else Some A1) = Some A2"
    using cx bnd lb len1 by (simp add: A2_def swap_rb_in)
  have len2: "length A2 = length A" by (simp add: A2_def len1)
  have so12: "same_outside left right A1 A2"
  proof (cases "key t < key x")
    case True
    then show ?thesis
      using same_outside_swap[of left right A1 left right] bnd lb len1 by (simp add: A2_def)
  next
    case False
    then show ?thesis by (simp add: A2_def same_outside_refl)
  qed
  have a2: "key t \<le> key (A2 ! nat left)" "key (A2 ! nat right) \<le> key t"
           "key (A2 ! nat left) = key t \<or> key (A2 ! nat right) = key t"
    using a1l bnd lb len1 by (auto simp: A2_def x_def nth_list_update)
  have se2: "same_except left right k A A2"
    using same_except_trans[OF se1 same_outside_except[OF so12]] .
  have ms2: "mset A2 = mset A" using se2 by (simp add: same_except_def)
  have pc2: "pivot_cmp cmp key t A2"
    using key_cmp_pivot[OF key_cmp_mset[OF kc ms2]] tin mset_eq_setD[OF ms2] by simp
  have inv2: "part_inv key t left right A2 left right"
    using a2 bnd by (simp add: part_inv_def)
  from part_loop_correct[OF pc2 bnd(1) _ inv2] bnd len2
  obtain A3 i j where r: "part_loop cmp A2 t left right = Some (A3, i, j)"
    "j \<le> i" "part_inv key t left right A3 i j" "same_outside left right A2 A3"
    "left < i" "j < right"
    "A3 ! nat left = A2 ! nat right" "A3 ! nat right = A2 ! nat left"
    by auto
  from r(3) have iv: "left \<le> j" "i \<le> right"
    "key (A3 ! nat j) \<le> key t"
    "\<forall>p. left \<le> p \<and> p < i \<longrightarrow> key (A3 ! nat p) \<le> key t"
    "\<forall>p. j < p \<and> p \<le> right \<longrightarrow> key t \<le> key (A3 ! nat p)"
    by (auto simp: part_inv_def)
  have len3: "length A3 = length A" using r(4) len2 by (simp add: same_outside_def)
  have se3: "same_except left right k A A3"
    using same_except_trans[OF se2 same_outside_except[OF r(4)]] .
  define y where "y = A3 ! nat left"
  have g3: "aget A3 left = Some y" using lb len3 by (simp add: aget_in y_def)
  have yin: "y \<in> set A"
  proof -
    have "y \<in> set A3" using lb len3 by (simp add: y_def)
    moreover have "set A3 = set A" using se3 mset_eq_setD[of A3 A] by (simp add: same_except_def)
    ultimately show ?thesis by simp
  qed
  have cy: "cmp y t = Fin (key y - key t)" using kc yin tin by (simp add: key_cmp_def)
  have jb: "0 \<le> j" "j < int (length A3)" "0 \<le> j + 1" "j + 1 < int (length A3)"
    using iv r(6) bnd len3 by auto
  have lb3: "0 \<le> left" "left < int (length A3)" "0 \<le> right" "right < int (length A3)"
    using lb bnd len3 by auto
  show ?thesis
  proof (cases "key y = key t")
    case True
    define A4 where "A4 = A3[nat left := A3 ! nat j, nat j := A3 ! nat left]"
    have s4: "swap_rb A3 left j = Some A4" using jb lb3 by (simp add: swap_rb_in A4_def)
    have ps: "partition_step cmp A left right k = Some (A4, j)"
      unfolding partition_step_def using g0 s1 g1 s2 r(1) g3 cy True s4 by simp
    have so4: "same_outside left right A3 A4"
      unfolding A4_def using same_outside_swap[of left right A3 left j] lb3 iv r(6) bnd by simp
    have nth4: "\<And>p. 0 \<le> p \<Longrightarrow> p < int (length A3) \<Longrightarrow>
        A4 ! nat p = (if p = j then A3 ! nat left else if p = left then A3 ! nat j else A3 ! nat p)"
      unfolding A4_def using swap_nth[OF lb3(1,2) jb(1,2)] by blast
    have kj: "key (A4 ! nat j) = key t" using nth4[of j] jb True by (simp add: y_def)
    have low: "\<forall>p. left \<le> p \<and> p < j \<longrightarrow> key (A4 ! nat p) \<le> key (A4 ! nat j)"
    proof (intro allI impI)
      fix p assume p: "left \<le> p \<and> p < j"
      then have pb: "0 \<le> p" "p < int (length A3)" using lb3 jb by auto
      show "key (A4 ! nat p) \<le> key (A4 ! nat j)"
        using nth4[OF pb] p iv(3) iv(4) r(2) kj by (cases "p = left") auto
    qed
    have high: "\<forall>p. j < p \<and> p \<le> right \<longrightarrow> key (A4 ! nat j) \<le> key (A4 ! nat p)"
    proof (intro allI impI)
      fix p assume p: "j < p \<and> p \<le> right"
      then have pb: "0 \<le> p" "p < int (length A3)" using lb3 jb by auto
      show "key (A4 ! nat j) \<le> key (A4 ! nat p)"
        using nth4[OF pb] p iv(1) iv(5) kj by auto
    qed
    show ?thesis
      using ps iv(1) r(6) same_except_trans[OF se3 same_outside_except[OF so4]] low high
      by auto
  next
    case False
    define A4 where "A4 = A3[nat (j + 1) := A3 ! nat right, nat right := A3 ! nat (j + 1)]"
    have s4: "swap_rb A3 (j + 1) right = Some A4" using jb lb3 by (simp add: swap_rb_in A4_def)
    have ps: "partition_step cmp A left right k = Some (A4, j + 1)"
      unfolding partition_step_def using g0 s1 g1 s2 r(1) g3 cy False s4 by simp
    have so4: "same_outside left right A3 A4"
      unfolding A4_def using same_outside_swap[of left right A3 "j + 1" right] lb3 iv r(6) bnd
      by simp
    have nth4: "\<And>p. 0 \<le> p \<Longrightarrow> p < int (length A3) \<Longrightarrow>
        A4 ! nat p = (if p = right then A3 ! nat (j + 1)
                      else if p = j + 1 then A3 ! nat right else A3 ! nat p)"
      unfolding A4_def using swap_nth[OF jb(3,4) lb3(3,4)] by blast
    have "key (A2 ! nat right) \<noteq> key t" using False r(7) by (simp add: y_def)
    with a2(3) have "key (A3 ! nat right) = key t" using r(8) by simp
    then have kj: "key (A4 ! nat (j + 1)) = key t"
      using nth4[of "j + 1"] jb by simp
    have low: "\<forall>p. left \<le> p \<and> p < j + 1 \<longrightarrow> key (A4 ! nat p) \<le> key (A4 ! nat (j + 1))"
    proof (intro allI impI)
      fix p assume p: "left \<le> p \<and> p < j + 1"
      then have pb: "0 \<le> p" "p < int (length A3)" using lb3 jb by auto
      have "A4 ! nat p = A3 ! nat p" using nth4[OF pb] p r(6) by simp
      moreover have "key (A3 ! nat p) \<le> key t"
        using p iv(3) iv(4) r(2) by (cases "p = j") auto
      ultimately show "key (A4 ! nat p) \<le> key (A4 ! nat (j + 1))" using kj by simp
    qed
    have high: "\<forall>p. j + 1 < p \<and> p \<le> right \<longrightarrow> key (A4 ! nat (j + 1)) \<le> key (A4 ! nat p)"
    proof (intro allI impI)
      fix p assume p: "j + 1 < p \<and> p \<le> right"
      then have pb: "0 \<le> p" "p < int (length A3)" using lb3 jb by auto
      show "key (A4 ! nat (j + 1)) \<le> key (A4 ! nat p)"
        using nth4[OF pb] p iv(5) kj by auto
    qed
    show ?thesis
      using ps iv(1) r(6) same_except_trans[OF se3 same_outside_except[OF so4]] low high
      by auto
  qed
qed

lemma narrow_shrinks:
  assumes "600 < right - left"
  shows "left \<le> fst (narrow left right k) \<and> snd (narrow left right k) \<le> right
         \<and> snd (narrow left right k) - fst (narrow left right k) < right - left"
proof -
  define n where "n = real_of_int (right - left + 1)"
  define i where "i = real_of_int (k - left + 1)"
  define s where "s = 0.5 * exp (2 * ln n / 3)"
  define sd where "sd = 0.5 * sqrt (ln n * s * (n - s) / n) * (if i - n / 2 < 0 then - 1 else 1)"
  define a where "a = real_of_int k - i * s / n + sd"
  define b where "b = real_of_int k + (n - i) * s / n + sd"
  have n: "601 < n" using assms by (simp add: n_def)
  have nar: "narrow left right k = (max left \<lfloor>a\<rfloor>, min right \<lfloor>b\<rfloor>)"
    by (simp add: narrow_def Let_def n_def i_def s_def sd_def a_def b_def)
  have "ln n \<ge> 0" using n by simp
  then have "2 * ln n / 3 \<le> ln n" by simp
  then have "exp (2 * ln n / 3) \<le> exp (ln n)" by simp
  also have "exp (ln n) = n" using n by simp
  finally have s: "s \<le> n / 2" by (simp add: s_def)
  have "b - a = (n - i) * s / n + i * s / n" by (simp add: a_def b_def)
  also have "\<dots> = ((n - i) + i) * s / n" by (simp only: add_divide_distrib ring_distribs)
  also have "\<dots> = s" using n by simp
  finally have ba: "b = a + s" by simp
  have "real_of_int \<lfloor>b\<rfloor> \<le> b" by simp
  moreover have "a < real_of_int \<lfloor>a\<rfloor> + 1" by linarith
  ultimately have "real_of_int \<lfloor>b\<rfloor> - real_of_int \<lfloor>a\<rfloor> < s + 1" using ba by linarith
  with s n have "real_of_int (\<lfloor>b\<rfloor> - \<lfloor>a\<rfloor>) < n - 1" by simp
  then have "real_of_int (\<lfloor>b\<rfloor> - \<lfloor>a\<rfloor>) < real_of_int (right - left)" by (simp add: n_def)
  then have d: "\<lfloor>b\<rfloor> - \<lfloor>a\<rfloor> < right - left" by linarith
  show ?thesis using d by (simp add: nar)
qed

lemma same_except_in_range:
  assumes "same_except l r k A B" "0 \<le> l" "r < int (length A)" "l \<le> k" "k \<le> r"
      and "l \<le> q" "q \<le> r"
  shows "\<exists>p. l \<le> p \<and> p \<le> r \<and> B ! nat q = A ! nat p"
proof -
  have len: "length B = length A" and ms: "mset B = mset A"
    and out: "\<And>p. 0 \<le> p \<Longrightarrow> p < int (length A) \<Longrightarrow> p < l \<or> r < p \<Longrightarrow> B ! nat p = A ! nat p"
    using assms(1,4,5) by (auto simp: same_except_def)
  define L where "L = nat l"
  define R where "R = nat (r + 1)"
  have LR: "L \<le> R" "R \<le> length A" using assms by (auto simp: L_def R_def)
  have tk: "take L B = take L A"
  proof (rule nth_equalityI)
    show "length (take L B) = length (take L A)" by (simp add: len)
  next
    fix x assume "x < length (take L B)"
    then have x: "x < L" "x < length A" using len by auto
    then have "int x < l" using assms(2) by (simp add: L_def)
    with x have "B ! nat (int x) = A ! nat (int x)"
      using out[of "int x"] by simp
    with x show "take L B ! x = take L A ! x" by simp
  qed
  have dr: "drop R B = drop R A"
  proof (rule nth_equalityI)
    show "length (drop R B) = length (drop R A)" by (simp add: len)
  next
    fix x assume "x < length (drop R B)"
    then have x: "R + x < length A" using len by auto
    then have "r < int (R + x)" using assms(2,3) by (simp add: R_def)
    with x have "B ! nat (int (R + x)) = A ! nat (int (R + x))"
      using out[of "int (R + x)"] by simp
    moreover have "nat (int (R + x)) = R + x" by (rule nat_int)
    ultimately show "drop R B ! x = drop R A ! x" using x len by simp
  qed
  have three: "mset X = mset (take L X) + mset (take (R - L) (drop L X)) + mset (drop R X)"
    for X :: "'a list"
  proof -
    have "mset (take L X @ drop L X) = mset (take L X) + mset (drop L X)"
      by (rule mset_append)
    then have 1: "mset X = mset (take L X) + mset (drop L X)" by simp
    have "mset (take (R - L) (drop L X) @ drop (R - L) (drop L X))
            = mset (take (R - L) (drop L X)) + mset (drop (R - L) (drop L X))"
      by (rule mset_append)
    then have 2: "mset (drop L X) = mset (take (R - L) (drop L X)) + mset (drop (R - L) (drop L X))"
      by (simp only: append_take_drop_id)
    have 3: "drop (R - L) (drop L X) = drop R X" using LR by simp
    show ?thesis using 1 2 by (simp only: 3 add.assoc)
  qed
  have "mset (take L B) + mset (take (R - L) (drop L B)) + mset (drop R B)
      = mset (take L A) + mset (take (R - L) (drop L A)) + mset (drop R A)"
    using ms three[of A] three[of B] by simp
  then have mid: "mset (take (R - L) (drop L B)) = mset (take (R - L) (drop L A))"
    using tk dr by simp
  have qn: "L \<le> nat q" "nat q < R" using assms by (auto simp: L_def R_def)
  then have "B ! nat q = take (R - L) (drop L B) ! (nat q - L)"
    using LR len by simp
  moreover have "nat q - L < length (take (R - L) (drop L B))"
    using qn LR len by simp
  ultimately have "B ! nat q \<in> set (take (R - L) (drop L B))"
    using nth_mem[of "nat q - L" "take (R - L) (drop L B)"] by simp
  then have "B ! nat q \<in> set (take (R - L) (drop L A))"
    using mset_eq_setD[OF mid] by simp
  then obtain m where m: "m < length (take (R - L) (drop L A))"
      "take (R - L) (drop L A) ! m = B ! nat q"
    by (auto simp: in_set_conv_nth)
  then have "A ! (L + m) = B ! nat q" "L + m < R" using LR by auto
  moreover have "nat (int (L + m)) = L + m" by (rule nat_int)
  ultimately have "l \<le> int (L + m) \<and> int (L + m) \<le> r \<and> B ! nat q = A ! nat (int (L + m))"
    using assms(2) by (simp add: L_def R_def)
  then show ?thesis by blast
qed

lemma select_total:
  assumes "key_cmp cmp key A" "0 \<le> left" "right < int (length A)" "0 \<le> k" "k < int (length A)"
  shows "\<exists>B. select cmp A left right k = Some B \<and> select_post key left right k A B"
  using assms
proof (induction "nat (right - left)" arbitrary: A left right rule: less_induct)
  case less
  note kc = less.prems(1) and lb = less.prems(2) and rb = less.prems(3)
    and kb = less.prems(4,5)
  show ?case
  proof (cases "left < right")
    case False
    have "select cmp A left right k = Some A"
      using False by (subst select.simps) simp
    moreover have "select_post key left right k A A"
    proof -
      have "p = k" if "left \<le> p" "p \<le> k" "k \<le> right" for p
        using that False by linarith
      moreover have "p = k" if "k \<le> p" "p \<le> right" "left \<le> k" for p
        using that False by linarith
      ultimately show ?thesis
        by (auto simp: select_post_def same_except_refl)
    qed
    ultimately show ?thesis by blast
  next
    case True
    define nl where "nl = fst (narrow left right k)"
    define nr where "nr = snd (narrow left right k)"
    have "\<exists>A1. (if 600 < right - left then select cmp A nl nr k else Some A) = Some A1
            \<and> same_except left right k A A1"
    proof (cases "600 < right - left")
      case False
      then show ?thesis by (simp add: same_except_refl)
    next
      case big: True
      from narrow_shrinks[OF big, of k]
      have ns: "left \<le> nl" "nr \<le> right" "nr - nl < right - left"
        by (auto simp: nl_def nr_def)
      then have "nat (nr - nl) < nat (right - left)" using True by simp
      from less.hyps[OF this kc _ _ kb] ns lb rb
      obtain B1 where "select cmp A nl nr k = Some B1" "select_post key nl nr k A B1"
        by auto
      then show ?thesis
        using big same_except_mono[of nl nr k A B1 left right] ns
        by (auto simp: select_post_def)
    qed
    then obtain A1 where a1: "(if 600 < right - left then select cmp A nl nr k else Some A) = Some A1"
      and se1: "same_except left right k A A1" by blast
    have len1: "length A1 = length A" and ms1: "mset A1 = mset A"
      using se1 by (auto simp: same_except_def)
    have kc1: "key_cmp cmp key A1" using key_cmp_mset[OF kc ms1] .
    from partition_step_correct[OF kc1 lb True _ kb(1)] rb kb len1
    obtain A2 j where ps: "partition_step cmp A1 left right k = Some (A2, j)"
      and jb: "left \<le> j" "j \<le> right"
      and se2: "same_except left right k A1 A2"
      and low: "\<forall>p. left \<le> p \<and> p < j \<longrightarrow> key (A2 ! nat p) \<le> key (A2 ! nat j)"
      and high: "\<forall>p. j < p \<and> p \<le> right \<longrightarrow> key (A2 ! nat j) \<le> key (A2 ! nat p)"
      by auto
    have len2: "length A2 = length A" and ms2: "mset A2 = mset A"
      using se2 len1 ms1 by (auto simp: same_except_def)
    have kc2: "key_cmp cmp key A2" using key_cmp_mset[OF kc ms2] .
    define left' where "left' = (if j \<le> k then j + 1 else left)"
    define right' where "right' = (if k \<le> j then j - 1 else right)"
    have b': "left \<le> left'" "right' \<le> right" "0 \<le> left'" "right' < int (length A2)"
      using jb lb rb len2 by (auto simp: left'_def right'_def)
    have "nat (right' - left') < nat (right - left)"
      using jb True by (auto simp: left'_def right'_def)
    from less.hyps[OF this kc2 b'(3,4)] kb len2
    obtain B where sb: "select cmp A2 left' right' k = Some B"
      and pb: "select_post key left' right' k A2 B"
      by auto
    have sel: "select cmp A left right k = Some B"
      using True a1 ps sb
      by (subst select.simps) (auto simp: nl_def nr_def left'_def right'_def split: if_splits)
    have se3: "same_except left' right' k A2 B" using pb by (simp add: select_post_def)
    have se: "same_except left right k A B"
      using same_except_trans[OF same_except_trans[OF se1 se2]
              same_except_mono[OF se3 b'(1,2)]] .
    have rank: "(\<forall>p. left \<le> p \<and> p \<le> k \<longrightarrow> key (B ! nat p) \<le> key (B ! nat k))
              \<and> (\<forall>p. k \<le> p \<and> p \<le> right \<longrightarrow> key (B ! nat k) \<le> key (B ! nat p))"
      if kin: "left \<le> k" "k \<le> right"
    proof -
      consider (eq) "j = k" | (lt) "j < k" | (gt) "k < j" by linarith
      then show ?thesis
      proof cases
        case eq
        then have "\<not> left' < right'" by (simp add: left'_def right'_def)
        then have "select cmp A2 left' right' k = Some A2"
          by (subst select.simps) simp
        with sb have "B = A2" by simp
        with eq low high show ?thesis by (auto simp: order_le_less)
      next
        case lt
        then have lr: "left' = j + 1" "right' = right" by (auto simp: left'_def right'_def)
        have kin': "left' \<le> k" "k \<le> right'" using lt kin lr by auto
        from pb kin' have
          r1: "\<forall>p. j + 1 \<le> p \<and> p \<le> k \<longrightarrow> key (B ! nat p) \<le> key (B ! nat k)" and
          r2: "\<forall>p. k \<le> p \<and> p \<le> right \<longrightarrow> key (B ! nat k) \<le> key (B ! nat p)"
          by (auto simp: select_post_def lr)
        from same_except_in_range[OF se3 b'(3) b'(4) kin' kin']
        obtain q where q: "j + 1 \<le> q" "q \<le> right" "B ! nat k = A2 ! nat q"
          using lr len2 by auto
        have kq: "key (A2 ! nat j) \<le> key (B ! nat k)" using high q by simp
        have "\<forall>p. left \<le> p \<and> p \<le> k \<longrightarrow> key (B ! nat p) \<le> key (B ! nat k)"
        proof (intro allI impI)
          fix p assume p: "left \<le> p \<and> p \<le> k"
          show "key (B ! nat p) \<le> key (B ! nat k)"
          proof (cases "p \<le> j")
            case False
            with p r1 show ?thesis by simp
          next
            case pj: True
            have "B ! nat p = A2 ! nat p"
              using se3 p pj lt lb kb len2 by (auto simp: same_except_def lr)
            moreover have "key (A2 ! nat p) \<le> key (A2 ! nat j)"
              using low p pj by (cases "p = j") auto
            ultimately show ?thesis using kq by simp
          qed
        qed
        with r2 show ?thesis by simp
      next
        case gt
        then have lr: "left' = left" "right' = j - 1" by (auto simp: left'_def right'_def)
        have kin': "left' \<le> k" "k \<le> right'" using gt kin lr by auto
        from pb kin' have
          r1: "\<forall>p. left \<le> p \<and> p \<le> k \<longrightarrow> key (B ! nat p) \<le> key (B ! nat k)" and
          r2: "\<forall>p. k \<le> p \<and> p \<le> j - 1 \<longrightarrow> key (B ! nat k) \<le> key (B ! nat p)"
          by (auto simp: select_post_def lr)
        from same_except_in_range[OF se3 b'(3) b'(4) kin' kin']
        obtain q where q: "left \<le> q" "q \<le> j - 1" "B ! nat k = A2 ! nat q"
          using lr len2 by auto
        have kq: "key (B ! nat k) \<le> key (A2 ! nat j)" using low q by simp
        have "\<forall>p. k \<le> p \<and> p \<le> right \<longrightarrow> key (B ! nat k) \<le> key (B ! nat p)"
        proof (intro allI impI)
          fix p assume p: "k \<le> p \<and> p \<le> right"
          show "key (B ! nat k) \<le> key (B ! nat p)"
          proof (cases "j \<le> p")
            case False
            with p r2 show ?thesis by simp
          next
            case pj: True
            have "B ! nat p = A2 ! nat p"
              using se3 p pj gt lb rb kb len2 by (auto simp: same_except_def lr)
            moreover have "key (A2 ! nat j) \<le> key (A2 ! nat p)"
              using high p pj by (cases "p = j") auto
            ultimately show ?thesis using kq by simp
          qed
        qed
        with r1 show ?thesis by simp
      qed
    qed
    show ?thesis
      using sel se rank by (auto simp: select_post_def)
  qed
qed

lemma same_except_slice:
  assumes "same_except l r k A B" "0 \<le> l" "r < int (length A)" "l \<le> k" "k \<le> r"
  shows "mset (slice B l (r + 1)) = mset (slice A l (r + 1))"
proof -
  have len: "length B = length A" and ms: "mset B = mset A"
    and out: "\<And>p. 0 \<le> p \<Longrightarrow> p < int (length A) \<Longrightarrow> p < l \<or> r < p \<Longrightarrow> B ! nat p = A ! nat p"
    using assms(1,4,5) by (auto simp: same_except_def)
  define L where "L = nat l"
  define R where "R = nat (r + 1)"
  have LR: "L \<le> R" "R \<le> length A" using assms by (auto simp: L_def R_def)
  have tk: "take L B = take L A"
  proof (rule nth_equalityI)
    show "length (take L B) = length (take L A)" by (simp add: len)
  next
    fix x assume "x < length (take L B)"
    then have x: "x < L" "x < length A" using len by auto
    then have "int x < l" using assms(2) by (simp add: L_def)
    with x have "B ! nat (int x) = A ! nat (int x)"
      using out[of "int x"] by simp
    with x show "take L B ! x = take L A ! x" by simp
  qed
  have dr: "drop R B = drop R A"
  proof (rule nth_equalityI)
    show "length (drop R B) = length (drop R A)" by (simp add: len)
  next
    fix x assume "x < length (drop R B)"
    then have x: "R + x < length A" using len by auto
    then have "r < int (R + x)" using assms(2,3) by (simp add: R_def)
    with x have "B ! nat (int (R + x)) = A ! nat (int (R + x))"
      using out[of "int (R + x)"] by simp
    moreover have "nat (int (R + x)) = R + x" by (rule nat_int)
    ultimately show "drop R B ! x = drop R A ! x" using x len by simp
  qed
  have three: "mset X = mset (take L X) + mset (take (R - L) (drop L X)) + mset (drop R X)"
    for X :: "'a list"
  proof -
    have "mset (take L X @ drop L X) = mset (take L X) + mset (drop L X)"
      by (rule mset_append)
    then have 1: "mset X = mset (take L X) + mset (drop L X)" by simp
    have "mset (take (R - L) (drop L X) @ drop (R - L) (drop L X))
            = mset (take (R - L) (drop L X)) + mset (drop (R - L) (drop L X))"
      by (rule mset_append)
    then have 2: "mset (drop L X) = mset (take (R - L) (drop L X)) + mset (drop (R - L) (drop L X))"
      by (simp only: append_take_drop_id)
    have 3: "drop (R - L) (drop L X) = drop R X" using LR by simp
    show ?thesis using 1 2 by (simp only: 3 add.assoc)
  qed
  have "mset (take L B) + mset (take (R - L) (drop L B)) + mset (drop R B)
      = mset (take L A) + mset (take (R - L) (drop L A)) + mset (drop R A)"
    using ms three[of A] three[of B] by simp
  then have mid: "mset (take (R - L) (drop L B)) = mset (take (R - L) (drop L A))"
    using tk dr by simp
  have "R - L = nat (r + 1 - l)" using assms by (auto simp: L_def R_def)
  with mid show ?thesis by (simp add: slice_def L_def)
qed

lemma sort_nth_pivot:
  fixes xs :: "real list"
  assumes "m < length xs"
      and "\<forall>p < m. xs ! p \<le> xs ! m"
      and "\<forall>p. m < p \<and> p < length xs \<longrightarrow> xs ! m \<le> xs ! p"
  shows "sort xs ! m = xs ! m"
proof -
  define L where "L = take m xs"
  define R where "R = drop (Suc m) xs"
  define x where "x = xs ! m"
  have xs: "xs = L @ x # R"
    using assms(1) by (simp add: L_def R_def x_def id_take_nth_drop)
  have lL: "length L = m" using assms(1) by (simp add: L_def)
  have Lx: "\<forall>y \<in> set L. y \<le> x"
  proof
    fix y assume "y \<in> set L"
    then obtain p where "p < length L" "L ! p = y" by (auto simp: in_set_conv_nth)
    then show "y \<le> x" using assms(2) lL by (auto simp: L_def x_def)
  qed
  have xR: "\<forall>y \<in> set R. x \<le> y"
  proof
    fix y assume "y \<in> set R"
    then obtain p where p: "p < length R" "R ! p = y" by (auto simp: in_set_conv_nth)
    then have "xs ! (Suc m + p) = y" "Suc m + p < length xs"
      using assms(1) by (auto simp: R_def)
    then show "x \<le> y" using assms(3) by (auto simp: x_def)
  qed
  have "sorted (sort L @ x # sort R)"
    using Lx xR by (auto simp: sorted_append intro: order_trans)
  moreover have "mset (sort L @ x # sort R) = mset xs"
    by (subst xs) simp
  ultimately have "sort xs = sort L @ x # sort R"
    using properties_for_sort[of "sort L @ x # sort R" xs] by simp
  then show ?thesis using lL by (simp add: nth_append x_def)
qed

text \<open>
  C10 (does not hold as stated). The claim: for every array, indices
  \<open>left \<le> k \<le> right\<close> and axis, after \<open>select\<close> the element of rank \<open>k\<close> is
  at index \<open>k\<close>, every element of the segment before it compares \<open>\<le>\<close> it and
  every element after it \<open>\<ge>\<close> it. For the keys \<open>1\<close>, \<open>-Infinity\<close>, \<open>2\<close> on
  axis 0, \<open>left = 0\<close>, \<open>right = 2\<close>, \<open>k = 1\<close> the pivot is \<open>-Infinity\<close>, the
  comparison of the pivot with itself is NaN, which stops the scan from the right and
  fails the test \<open>compare(arr[left], t) === 0\<close>; the array ends as \<open>-Infinity\<close>,
  \<open>2\<close>, \<open>1\<close>: the element at index 2 compares below the one at index 1.
\<close>

theorem select_misplaces_infinite_key:
  "select (default_compareMin (\<lambda>x. x) 0)
     [[Fin 1, Fin 0, Fin 1, Fin 0], [NInf, Fin 0, NInf, Fin 0], [Fin 2, Fin 0, Fin 2, Fin 0]] 0 2 1
     = Some [[NInf, Fin 0, NInf, Fin 0], [Fin 2, Fin 0, Fin 2, Fin 0], [Fin 1, Fin 0, Fin 1, Fin 0]]
   \<and> default_compareMin (\<lambda>x. x) 0 [Fin 1, Fin 0, Fin 1, Fin 0] [Fin 2, Fin 0, Fin 2, Fin 0]
       = Fin (- 1)"
  by code_simp

text \<open>
  C10, what holds. For every array, indices \<open>0 \<le> left \<le> k \<le> right\<close> inside it and a
  comparison that is the difference of a real key on its elements (as
  \<open>a[axis] - b[axis]\<close> is for finite coordinates whose differences do not overflow),
  \<open>select\<close> returns; the segment
  \<open>left..right\<close> of the result is a permutation of the segment before and the rest
  of the array is as before; every element of the segment left of \<open>k\<close> has a key at
  most that of the element at \<open>k\<close>, every element right of it a key at least that;
  and the key at \<open>k\<close> is the one of rank \<open>k - left\<close> in the sorted segment.
\<close>

theorem select_places_rank_k:
  assumes "key_cmp cmp key arr"
      and "0 \<le> left" "left \<le> k" "k \<le> right" "right < int (length arr)"
  shows "\<exists>arr'. select cmp arr left right k = Some arr'
           \<and> length arr' = length arr
           \<and> mset (slice arr' left (right + 1)) = mset (slice arr left (right + 1))
           \<and> (\<forall>p. 0 \<le> p \<and> p < int (length arr) \<and> (p < left \<or> right < p)
                  \<longrightarrow> arr' ! nat p = arr ! nat p)
           \<and> (\<forall>p. left \<le> p \<and> p \<le> k \<longrightarrow> key (arr' ! nat p) \<le> key (arr' ! nat k))
           \<and> (\<forall>p. k \<le> p \<and> p \<le> right \<longrightarrow> key (arr' ! nat k) \<le> key (arr' ! nat p))
           \<and> sort (map key (slice arr left (right + 1))) ! nat (k - left) = key (arr' ! nat k)"
proof -
  have kb: "0 \<le> k" "k < int (length arr)" using assms by auto
  from select_total[OF assms(1,2,5) kb]
  obtain B where sel: "select cmp arr left right k = Some B"
    and post: "select_post key left right k arr B" by blast
  from post assms have se: "same_except left right k arr B"
    and lo: "\<forall>p. left \<le> p \<and> p \<le> k \<longrightarrow> key (B ! nat p) \<le> key (B ! nat k)"
    and hi: "\<forall>p. k \<le> p \<and> p \<le> right \<longrightarrow> key (B ! nat k) \<le> key (B ! nat p)"
    by (auto simp: select_post_def)
  have len: "length B = length arr" using se by (simp add: same_except_def)
  have out: "\<forall>p. 0 \<le> p \<and> p < int (length arr) \<and> (p < left \<or> right < p)
                  \<longrightarrow> B ! nat p = arr ! nat p"
    using se assms by (auto simp: same_except_def)
  have sl: "mset (slice B left (right + 1)) = mset (slice arr left (right + 1))"
    using same_except_slice[OF se assms(2,5,3,4)] .
  define seg where "seg = map key (slice B left (right + 1))"
  define m where "m = nat (k - left)"
  have lseg: "length seg = nat (right + 1 - left)"
    using assms len by (simp add: seg_def slice_def)
  have mseg: "m < length seg" using assms lseg by (simp add: m_def)
  have nth_seg: "seg ! p = key (B ! nat (left + int p))" if "p < length seg" for p
  proof -
    have "nat left + p < length B" using that lseg assms len by simp
    moreover have "nat (left + int p) = nat left + p" using assms by simp
    ultimately show ?thesis using that lseg by (simp add: seg_def slice_def)
  qed
  have segm: "seg ! m = key (B ! nat k)"
    using nth_seg[OF mseg] assms by (simp add: m_def)
  have below: "\<forall>p < m. seg ! p \<le> seg ! m"
  proof (intro allI impI)
    fix p assume p: "p < m"
    then have "p < length seg" using mseg by simp
    from nth_seg[OF this] have "seg ! p = key (B ! nat (left + int p))" .
    moreover have "left \<le> left + int p \<and> left + int p \<le> k"
      using p assms(2-5) unfolding m_def by arith
    ultimately show "seg ! p \<le> seg ! m" using lo segm by simp
  qed
  have above: "\<forall>p. m < p \<and> p < length seg \<longrightarrow> seg ! m \<le> seg ! p"
  proof (intro allI impI)
    fix p assume p: "m < p \<and> p < length seg"
    from nth_seg[of p] p have "seg ! p = key (B ! nat (left + int p))" by simp
    moreover have "k \<le> left + int p \<and> left + int p \<le> right"
      using p assms(2-5) lseg unfolding m_def by arith
    ultimately show "seg ! m \<le> seg ! p" using hi segm by simp
  qed
  have "sort seg ! m = seg ! m" using sort_nth_pivot[OF mseg below above] .
  moreover have "mset seg = mset (map key (slice arr left (right + 1)))"
    using sl by (simp add: seg_def)
  then have "sort seg = sort (map key (slice arr left (right + 1)))"
    by (simp add: properties_for_sort)
  ultimately have rk: "sort (map key (slice arr left (right + 1))) ! nat (k - left) = key (B ! nat k)"
    using segm by (simp add: m_def)
  show ?thesis using sel len sl out lo hi rk by blast
qed

theorem select_places_rank_k_witness:
  "key_cmp (default_compareMin (\<lambda>x. x) 1) (coord 1)
     [point 0 2, point 10 0, point 20 4, point 30 1, point 40 3]
   \<and> (\<exists>arr'. select (default_compareMin (\<lambda>x. x) 1)
                 [point 0 2, point 10 0, point 20 4, point 30 1, point 40 3] 0 4 2 = Some arr'
         \<and> length arr' = 5
         \<and> coord 1 (arr' ! 2) = 2
         \<and> coord 1 (arr' ! 0) \<le> coord 1 (arr' ! 2)
         \<and> coord 1 (arr' ! 2) \<le> coord 1 (arr' ! 4))"
proof -
  let ?arr = "[point 0 2, point 10 0, point 20 4, point 30 1, point 40 3]"
  have h: "key_cmp (default_compareMin (\<lambda>x. x) 1) (coord 1) ?arr"
    by (simp add: key_cmp_def default_compareMin_def coord_def point_def bget_def jsub_def
        overflow_def overflow_bound_def)
  have s: "sort (map (coord 1) (slice ?arr 0 (4 + 1))) ! nat (2 - 0) = 2"
    by (simp add: slice_def coord_def point_def bget_def)
  from select_places_rank_k[OF h, of 0 2 4]
  obtain arr' where a: "select (default_compareMin (\<lambda>x. x) 1) ?arr 0 4 2 = Some arr'"
    "length arr' = length ?arr"
    "\<forall>p. 0 \<le> p \<and> p \<le> 2 \<longrightarrow> coord 1 (arr' ! nat p) \<le> coord 1 (arr' ! nat 2)"
    "\<forall>p. 2 \<le> p \<and> p \<le> 4 \<longrightarrow> coord 1 (arr' ! nat 2) \<le> coord 1 (arr' ! nat p)"
    "sort (map (coord 1) (slice ?arr 0 (4 + 1))) ! nat (2 - 0) = coord 1 (arr' ! nat 2)"
    by auto
  from a(3)[rule_format, of 0] have "coord 1 (arr' ! nat 0) \<le> coord 1 (arr' ! nat 2)" by simp
  moreover from a(4)[rule_format, of 4] have "coord 1 (arr' ! nat 2) \<le> coord 1 (arr' ! nat 4)"
    by simp
  ultimately show ?thesis using h a(1,2,5) s by auto
qed

end
